theory Spec2Isabelle
  imports Complex_Main "HOL-Library.Word" "HOL-Library.Log_Nat"
begin

unbundle bit_operations_syntax

section \<open>Data model of \<^verbatim>\<open>shredsim/utils.py\<close>\<close>

text \<open>
  An 8-bit grayscale image is a list of rows of \<^verbatim>\<open>uint8\<close> pixels. Base points and
  offsets are numpy arrays of \<^verbatim>\<open>int64\<close> (\<^verbatim>\<open>np.array(base_point)\<close>,
  \<^verbatim>\<open>np.array((100, 110))\<close>): a coordinate is a 64-bit word, read as a signed number by
  \<open>sint\<close>, and its addition and subtraction wrap around silently, as numpy's do. The
  document size and the shape of an array are tuples of Python integers, which are
  unbounded. The names are the source's, but for \<open>size\<close>, written
  \<open>size2\<close>, \<open>image\<close>, written \<open>img\<close>, and the sets \<open>done\<close> and \<open>todo\<close>, which are the
  fields \<open>st_done\<close> and \<open>st_todo\<close> of the loop's state: Isabelle has these names taken.
\<close>

type_synonym pixel = "8 word"
type_synonym image = "pixel list list"
type_synonym coord = "64 word"
type_synonym point = "coord \<times> coord"
type_synonym slice = "(int \<times> int) \<times> (int \<times> int)"

text \<open>\<^verbatim>\<open>ShredConfig = collections.namedtuple("ShredConfig", "mask right bottom")\<close>\<close>

record ShredConfig =
  mask :: image
  right :: point
  bottom :: point

text \<open>The conditions a call can end with other than a returned value.\<close>

datatype error = InvalidConfiguration | InvalidMask | IndexError | ZeroDivisionError

text \<open>\<^verbatim>\<open>ndarray.shape\<close> of a two-dimensional array: (rows, columns).\<close>

definition shape :: "image \<Rightarrow> int \<times> int" where
  "shape img = (int (length img), if img = [] then 0 else int (length (hd img)))"

text \<open>
  Element-wise addition and subtraction of two-element \<^verbatim>\<open>int64\<close> arrays: the operations
  of \<open>64 word\<close>, which wrap around.
\<close>

definition vadd :: "point \<Rightarrow> point \<Rightarrow> point" where
  "vadd p d = (fst p + fst d, snd p + snd d)"

definition vsub :: "point \<Rightarrow> point \<Rightarrow> point" where
  "vsub p d = (fst p - fst d, snd p - snd d)"

text \<open>
  Modelled from the spec: \<^verbatim>\<open>dataset.to_slice(base_point, mask_shape)\<close> is not among the
  sources. The spec (4.2) describes it as the axis-aligned rectangular region of size
  \<^verbatim>\<open>mask_shape\<close> whose top-left corner is \<^verbatim>\<open>base_point\<close>, with no bounds checking: a
  half-open row range and a half-open column range, which start at the coordinates of
  the base point (the signed numbers the words stand for) and have the lengths of the
  shape.
\<close>

definition to_slice :: "point \<Rightarrow> int \<times> int \<Rightarrow> slice" where
  "to_slice base_point mask_shape =
     ((sint (fst base_point), sint (fst base_point) + fst mask_shape),
      (sint (snd base_point), sint (snd base_point) + snd mask_shape))"

text \<open>A slice lies within \<open>[0, size)\<close> component-wise.\<close>

definition slice_within :: "slice \<Rightarrow> int \<times> int \<Rightarrow> bool" where
  "slice_within s size2 =
     (0 \<le> fst (fst s) \<and> snd (fst s) \<le> fst size2 \<and> 0 \<le> fst (snd s) \<and> snd (snd s) \<le> snd size2)"

subsection \<open>The undirected graph (\<^verbatim>\<open>nx.Graph\<close>)\<close>

text \<open>
  A graph holds its nodes with their attribute dictionaries and its undirected edges.
  The only attribute the program ever sets is \<^verbatim>\<open>slice\<close>, so the attribute dictionary of
  a node is \<open>None\<close> (no attribute) or \<open>Some s\<close>. An undirected edge between \<open>u\<close> and
  \<open>v\<close> is the set \<open>{u, v}\<close>; a self-loop is \<open>{u}\<close>.
\<close>

record graph =
  node :: "point \<rightharpoonup> slice option"
  edge :: "point set set"

definition empty_graph :: graph where
  "empty_graph = \<lparr>node = Map.empty, edge = {}\<rparr>"

text \<open>\<^verbatim>\<open>G.add_node(n, slice=s)\<close>: creates the node or updates its attribute.\<close>

definition add_node :: "point \<Rightarrow> slice \<Rightarrow> graph \<Rightarrow> graph" where
  "add_node n s g = g\<lparr>node := (node g)(n \<mapsto> Some s)\<rparr>"

text \<open>
  \<^verbatim>\<open>G.add_edge(u, v)\<close>: both end points become nodes (with no attribute) when they are
  not nodes yet, and the edge is recorded.
\<close>

definition ensure_node :: "point \<Rightarrow> (point \<rightharpoonup> slice option) \<Rightarrow> (point \<rightharpoonup> slice option)" where
  "ensure_node n m = (case m n of None \<Rightarrow> m(n \<mapsto> None) | Some a \<Rightarrow> m)"

definition add_edge :: "point \<Rightarrow> point \<Rightarrow> graph \<Rightarrow> graph" where
  "add_edge u v g =
     g\<lparr>node := ensure_node v (ensure_node u (node g)), edge := insert {u, v} (edge g)\<rparr>"

section \<open>\<^verbatim>\<open>cut_to_shreds\<close>\<close>

text \<open>The state of the loop: the graph under construction and the two sets.\<close>

record loop_state =
  st_graph :: graph
  st_done :: "point set"
  st_todo :: "point set"

text \<open>
  The guard of \<^verbatim>\<open>continue\<close>: \<^verbatim>\<open>any(neighbor < 0) or any(neighbor + mask.shape > size)\<close>.
  \<open>neighbor\<close> is an \<^verbatim>\<open>int64\<close> array: adding the shape to it turns the shape into
  \<^verbatim>\<open>int64\<close> and wraps around, and the two comparisons read the words as signed numbers.
\<close>

definition out_of_bounds :: "int \<times> int \<Rightarrow> int \<times> int \<Rightarrow> point \<Rightarrow> bool" where
  "out_of_bounds size2 mask_shape neighbor =
     ((sint (fst neighbor) < 0 \<or> sint (snd neighbor) < 0) \<or>
      (sint (fst neighbor + word_of_int (fst mask_shape)) > fst size2 \<or>
       sint (snd neighbor + word_of_int (snd mask_shape)) > snd size2))"

text \<open>
  The list \<^verbatim>\<open>neighbors\<close>: left, right, top, bottom, each computed on \<^verbatim>\<open>int64\<close> arrays.
\<close>

definition neighbors :: "ShredConfig \<Rightarrow> point \<Rightarrow> point list" where
  "neighbors shred_config base_point =
     [vsub base_point (right shred_config), vadd base_point (right shred_config),
      vsub base_point (bottom shred_config), vadd base_point (bottom shred_config)]"

text \<open>One pass of the \<^verbatim>\<open>for neighbor in neighbors\<close> loop.\<close>

definition visit_neighbor ::
  "int \<times> int \<Rightarrow> ShredConfig \<Rightarrow> point \<Rightarrow> point \<Rightarrow> loop_state \<Rightarrow> loop_state" where
  "visit_neighbor size2 shred_config base_point neighbor s =
     (if out_of_bounds size2 (shape (mask shred_config)) neighbor then s
      else
        let s1 = s\<lparr>st_graph := add_edge base_point neighbor (st_graph s)\<rparr> in
        if neighbor \<in> st_done s1 \<or> neighbor \<in> st_todo s1 then s1
        else s1\<lparr>st_todo := insert neighbor (st_todo s1)\<rparr>)"

text \<open>
  The body of the \<^verbatim>\<open>while todo\<close> loop for the element \<open>base_point\<close> that
  \<^verbatim>\<open>todo.pop()\<close> has removed and returned.
\<close>

definition loop_body :: "int \<times> int \<Rightarrow> ShredConfig \<Rightarrow> point \<Rightarrow> loop_state \<Rightarrow> loop_state" where
  "loop_body size2 shred_config base_point s =
     (let s1 = s\<lparr>st_todo := st_todo s - {base_point}, st_done := insert base_point (st_done s)\<rparr>;
          slice_ind = to_slice base_point (shape (mask shred_config));
          s2 = s1\<lparr>st_graph := add_node base_point slice_ind (st_graph s1)\<rparr>
      in fold (visit_neighbor size2 shred_config base_point) (neighbors shred_config base_point) s2)"

text \<open>
  \<^verbatim>\<open>set.pop()\<close> removes and returns an arbitrary element, so the loop is a relation: one
  step pops any element of \<open>todo\<close> and runs the body.
\<close>

inductive loop_step :: "int \<times> int \<Rightarrow> ShredConfig \<Rightarrow> loop_state \<Rightarrow> loop_state \<Rightarrow> bool"
  for size2 :: "int \<times> int" and shred_config :: ShredConfig where
  pop: "base_point \<in> st_todo s \<Longrightarrow> loop_step size2 shred_config s (loop_body size2 shred_config base_point s)"

text \<open>The loop run to its end: it leaves when \<open>todo\<close> is empty, with the graph built.\<close>

inductive while_todo :: "int \<times> int \<Rightarrow> ShredConfig \<Rightarrow> loop_state \<Rightarrow> graph \<Rightarrow> bool"
  for size2 :: "int \<times> int" and shred_config :: ShredConfig where
  exit: "st_todo s = {} \<Longrightarrow> while_todo size2 shred_config s (st_graph s)"
| iter: "loop_step size2 shred_config s s' \<Longrightarrow> while_todo size2 shred_config s' g
         \<Longrightarrow> while_todo size2 shred_config s g"

definition initial_state :: loop_state where
  "initial_state = \<lparr>st_graph = empty_graph, st_done = {}, st_todo = {(0, 0)}\<rparr>"

text \<open>
  \<^verbatim>\<open>cut_to_shreds(size, shred_config)\<close> as the relation between its arguments and its
  outcomes; the function has no \<^verbatim>\<open>raise\<close>, every outcome is the returned graph.
\<close>

inductive cut_to_shreds :: "int \<times> int \<Rightarrow> ShredConfig \<Rightarrow> error + graph \<Rightarrow> bool"
  for size2 :: "int \<times> int" and shred_config :: ShredConfig where
  returns: "while_todo size2 shred_config initial_state g \<Longrightarrow> cut_to_shreds size2 shred_config (Inr g)"

text \<open>An execution of the loop that never leaves it.\<close>

definition runs_forever :: "int \<times> int \<Rightarrow> ShredConfig \<Rightarrow> bool" where
  "runs_forever size2 shred_config =
     (\<exists>f. f (0::nat) = initial_state \<and> (\<forall>i. loop_step size2 shred_config (f i) (f (Suc i))))"

section \<open>Array operations on images\<close>

text \<open>
  Pixel coordinates are (row, column). An array is rectangular with \<open>h\<close> rows and \<open>w\<close>
  columns; two arrays have the same shape when they are rectangular for the same \<open>h\<close>
  and \<open>w\<close>.
\<close>

definition px :: "image \<Rightarrow> nat \<Rightarrow> nat \<Rightarrow> pixel" where
  "px a r c = a ! r ! c"

definition rectangular :: "nat \<Rightarrow> nat \<Rightarrow> image \<Rightarrow> bool" where
  "rectangular h w a = (length a = h \<and> list_all (\<lambda>row. length row = w) a)"

text \<open>
  \<^verbatim>\<open>cv2.threshold(src, thresh, maxval, cv2.THRESH_BINARY_INV)[1]\<close>: a pixel above
  \<open>thresh\<close> becomes 0, every other pixel becomes \<open>maxval\<close>.
\<close>

definition threshold_binary_inv :: "image \<Rightarrow> pixel \<Rightarrow> pixel \<Rightarrow> image" where
  "threshold_binary_inv src thresh maxval =
     map (map (\<lambda>v. if v > thresh then 0 else maxval)) src"

text \<open>\<^verbatim>\<open>np.maximum(a, b)\<close>, element-wise, for two arrays of the same shape.\<close>

definition maximum :: "image \<Rightarrow> image \<Rightarrow> image" where
  "maximum a b = map2 (map2 max) a b"

text \<open>
  Modelled from the spec: \<^verbatim>\<open>dataset.pad_image(img, n)\<close> is not among the sources. The spec
  (4.4, step 3) describes the call as padding the image by \<open>n\<close> pixels of background
  (0) on all sides.
\<close>

definition pad_image :: "image \<Rightarrow> nat \<Rightarrow> image" where
  "pad_image a n =
     (let blank = replicate ((if a = [] then 0 else length (hd a)) + 2 * n) 0
      in replicate n blank @ map (\<lambda>row. replicate n 0 @ row @ replicate n 0) a @ replicate n blank)"

text \<open>\<^verbatim>\<open>k - a\<close> for a scalar \<open>k\<close> and a \<^verbatim>\<open>uint8\<close> array \<open>a\<close>.\<close>

definition rsub :: "pixel \<Rightarrow> image \<Rightarrow> image" where
  "rsub k a = map (map (\<lambda>v. k - v)) a"

text \<open>\<^verbatim>\<open>np.argwhere(a == v)\<close>: the coordinates of the matching pixels in row-major order.\<close>

definition argwhere_eq :: "image \<Rightarrow> pixel \<Rightarrow> (nat \<times> nat) list" where
  "argwhere_eq a v = [(r, c). r \<leftarrow> [0..<length a], c \<leftarrow> [0..<length (a ! r)], a ! r ! c = v]"

text \<open>\<^verbatim>\<open>(a == v).astype(np.uint8)\<close>\<close>

definition eq_mask :: "image \<Rightarrow> pixel \<Rightarrow> image" where
  "eq_mask a v = map (map (\<lambda>x. if x = v then 1 else 0)) a"

text \<open>\<^verbatim>\<open>a[1:-1, 1:-1]\<close>\<close>

definition crop1 :: "image \<Rightarrow> image" where
  "crop1 a = map (\<lambda>row. butlast (tl row)) (butlast (tl a))"

text \<open>
  \<^verbatim>\<open>cv2.bitwise_and(src1, src2, mask=m)\<close> into a fresh destination: the conjunction where
  the mask is nonzero, 0 elsewhere.
\<close>

definition bitwise_and_masked :: "image \<Rightarrow> image \<Rightarrow> image \<Rightarrow> image" where
  "bitwise_and_masked src1 src2 m =
     map2 (\<lambda>row1 (row2, rowm). map2 (\<lambda>a (b, k). if k \<noteq> 0 then a AND b else 0) row1 (zip row2 rowm))
       src1 (zip src2 m)"

subsection \<open>\<^verbatim>\<open>cv2.floodFill\<close>\<close>

text \<open>
  \<^verbatim>\<open>cv2.floodFill(image, mask, seedPoint, newVal)\<close> with its defaults (\<open>loDiff = upDiff = 0\<close>,
  connectivity 4, mask fill value 1), as OpenCV documents it: the fill starts at the seed
  and spreads to the 4-neighbours whose value equals that of the neighbour already filled
  (hence the seed's) and whose mask pixel is zero; the mask is two pixels wider and
  taller than the image, image pixel \<open>(r, c)\<close> corresponding to mask pixel
  \<open>(r + 1, c + 1)\<close>. The filled pixels get \<open>newVal\<close> in the image and 1 in the mask.
  \<open>seedPoint\<close> is \<open>(x, y)\<close>, that is (column, row).
\<close>

definition fillable :: "image \<Rightarrow> image \<Rightarrow> pixel \<Rightarrow> nat \<times> nat \<Rightarrow> bool" where
  "fillable a msk v p =
     (fst p < length a \<and> snd p < length (a ! fst p) \<and>
      a ! fst p ! snd p = v \<and> msk ! (fst p + 1) ! (snd p + 1) = 0)"

definition adj4 :: "nat \<times> nat \<Rightarrow> nat \<times> nat \<Rightarrow> bool" where
  "adj4 p q =
     ((fst p = fst q \<and> (snd p = snd q + 1 \<or> snd q = snd p + 1)) \<or>
      (snd p = snd q \<and> (fst p = fst q + 1 \<or> fst q = fst p + 1)))"

definition pixels :: "image \<Rightarrow> (nat \<times> nat) list" where
  "pixels a = [(r, c). r \<leftarrow> [0..<length a], c \<leftarrow> [0..<length (a ! r)]]"

text \<open>One round of spreading: the fillable pixels next to the region join it.\<close>

definition grow :: "image \<Rightarrow> image \<Rightarrow> pixel \<Rightarrow> (nat \<times> nat) set \<Rightarrow> (nat \<times> nat) set" where
  "grow a msk v S =
     S \<union> set (filter (\<lambda>q. fillable a msk v q \<and> (\<exists>p \<in> S. adj4 p q)) (pixels a))"

text \<open>
  The filled region: spreading from the seed, once per pixel of the image, which is
  enough to reach the fixed point (lemma \<open>flood_region_reachable\<close> below).
\<close>

definition flood_region :: "image \<Rightarrow> image \<Rightarrow> nat \<times> nat \<Rightarrow> (nat \<times> nat) set" where
  "flood_region a msk seed =
     (if fillable a msk (a ! fst seed ! snd seed) seed
      then (grow a msk (a ! fst seed ! snd seed) ^^ length (pixels a)) {seed}
      else {})"

text \<open>The array with \<open>v\<close> written at the pixels of \<open>R\<close>, shifted by \<open>off\<close> in both axes.\<close>

definition paint :: "nat \<Rightarrow> image \<Rightarrow> (nat \<times> nat) set \<Rightarrow> pixel \<Rightarrow> image" where
  "paint off a R v =
     map (\<lambda>r. map (\<lambda>c. if off \<le> r \<and> off \<le> c \<and> (r - off, c - off) \<in> R then v else a ! r ! c)
                [0..<length (a ! r)])
       [0..<length a]"

definition floodFill :: "image \<Rightarrow> image \<Rightarrow> nat \<times> nat \<Rightarrow> pixel \<Rightarrow> image \<times> image" where
  "floodFill a msk seedPoint newVal =
     (let seed = (snd seedPoint, fst seedPoint);
          R = flood_region a msk seed
      in (paint 0 a R newVal, paint 1 msk R 1))"

section \<open>\<^verbatim>\<open>preserve_outermost\<close>\<close>

text \<open>
  The function follows the source line by line. Indexing the result of \<^verbatim>\<open>np.argwhere\<close>
  with \<open>[0]\<close> raises IndexError when no pixel matches. \<^verbatim>\<open>cv2.floodFill\<close> writes into
  \<open>with_outside\<close> and \<open>flood_fill_mask\<close>; only the mask is read afterwards.
\<close>

definition preserve_outermost :: "image \<Rightarrow> image \<Rightarrow> error + image" where
  "preserve_outermost img foreground_mask =
     (let outside_mask = threshold_binary_inv foreground_mask 254 255;
          with_outside = maximum img outside_mask;
          flood_fill_mask = rsub 255 (pad_image with_outside 1)
      in case argwhere_eq outside_mask 255 of
           [] \<Rightarrow> Inl IndexError
         | seed_point # rest \<Rightarrow>
             let new_val = 128;
                 filled = floodFill with_outside flood_fill_mask (snd seed_point, fst seed_point) new_val
             in Inr (bitwise_and_masked img img (crop1 (eq_mask (snd filled) 1))))"

section \<open>\<^verbatim>\<open>is_good_node\<close>\<close>

text \<open>
  A Python \<^verbatim>\<open>float\<close> is an IEEE 754 binary64 number. The conversion of an integer, the
  division and the reading of the literal \<^verbatim>\<open>0.05\<close> each round the exact value to the nearest
  binary64 number, ties to even. The rounding is modelled on the rationals, for
  non-negative values in the normal range (the quotients of pixel counts are there):
  \<open>binade x\<close> is the exponent \<open>e\<close> with \<open>2\<^sup>e \<le> x < 2\<^sup>e\<^sup>+\<^sup>1\<close>, and the 53-bit significand is
  \<open>x / 2\<^sup>e\<^sup>-\<^sup>5\<^sup>2\<close> rounded to an integer.
\<close>

definition round_half_even :: "rat \<Rightarrow> int" where
  "round_half_even y =
     (let f = \<lfloor>y\<rfloor>; d = y - of_int f
      in if d < 1 / 2 then f else if 1 / 2 < d then f + 1 else if even f then f else f + 1)"

definition binade :: "rat \<Rightarrow> int" where
  "binade x =
     (let k = bitlen (fst (quotient_of x)) - bitlen (snd (quotient_of x))
      in if 2 powi k \<le> x then k else k - 1)"

definition to_double :: "rat \<Rightarrow> rat" where
  "to_double x =
     (if x = 0 then 0
      else of_int (round_half_even (x / 2 powi (binade x - 52))) * 2 powi (binade x - 52))"

text \<open>\<^verbatim>\<open>np.count_nonzero(img)\<close> and \<^verbatim>\<open>img.size\<close>.\<close>

definition count_nonzero :: "image \<Rightarrow> nat" where
  "count_nonzero img = length (filter (\<lambda>v. v \<noteq> 0) (concat img))"

definition array_size :: "image \<Rightarrow> nat" where
  "array_size img = length (concat img)"

text \<open>
  \<^verbatim>\<open>return (float(num_non_zeros) / img.size) > 0.05\<close>; the division of a float by the
  integer 0 raises ZeroDivisionError.
\<close>

definition is_good_node :: "image \<Rightarrow> error + bool" where
  "is_good_node img =
     (let num_non_zeros = count_nonzero img
      in if array_size img = 0 then Inl ZeroDivisionError
         else Inr (to_double (1 / 20) <
                   to_double (to_double (of_nat num_non_zeros) / to_double (of_nat (array_size img)))))"

section \<open>What the loop computes\<close>

text \<open>The candidates of a list that pass the bounds guard and so get an edge.\<close>

definition ok_neighbors :: "int \<times> int \<Rightarrow> ShredConfig \<Rightarrow> point list \<Rightarrow> point set" where
  "ok_neighbors size2 cfg qs = {q \<in> set qs. \<not> out_of_bounds size2 (shape (mask cfg)) q}"

text \<open>The node dictionary after making every point of \<open>N\<close> a node that is not one yet.\<close>

definition with_nodes :: "point set \<Rightarrow> (point \<rightharpoonup> slice option) \<Rightarrow> (point \<rightharpoonup> slice option)" where
  "with_nodes N m = (\<lambda>r. case m r of Some a \<Rightarrow> Some a | None \<Rightarrow> if r \<in> N then Some None else None)"

text \<open>
  One in-bounds lattice step, and the lattice: the points that in-bounds steps reach from
  the root \<open>(0, 0)\<close>.
\<close>

definition nstep :: "int \<times> int \<Rightarrow> ShredConfig \<Rightarrow> (point \<times> point) set" where
  "nstep size2 cfg = {(p, q). q \<in> ok_neighbors size2 cfg (neighbors cfg p)}"

definition lattice :: "int \<times> int \<Rightarrow> ShredConfig \<Rightarrow> point set" where
  "lattice size2 cfg = (nstep size2 cfg)\<^sup>* `` {(0, 0)}"

text \<open>
  The graph the loop has built once the points of \<open>D\<close> are done: they carry their slice,
  their in-bounds neighbours are nodes, and the edges are the in-bounds steps that leave \<open>D\<close>.
\<close>

definition node_of :: "int \<times> int \<Rightarrow> ShredConfig \<Rightarrow> point set \<Rightarrow> (point \<rightharpoonup> slice option)" where
  "node_of size2 cfg D =
     (\<lambda>p. if p \<in> D then Some (Some (to_slice p (shape (mask cfg))))
          else if p \<in> nstep size2 cfg `` D then Some None else None)"

definition edge_of :: "int \<times> int \<Rightarrow> ShredConfig \<Rightarrow> point set \<Rightarrow> point set set" where
  "edge_of size2 cfg D = (\<lambda>(p, q). {p, q}) ` (nstep size2 cfg \<inter> D \<times> UNIV)"

definition lattice_graph :: "int \<times> int \<Rightarrow> ShredConfig \<Rightarrow> graph" where
  "lattice_graph size2 cfg =
     \<lparr>node = node_of size2 cfg (lattice size2 cfg), edge = edge_of size2 cfg (lattice size2 cfg)\<rparr>"

text \<open>The loop invariant.\<close>

definition loop_inv :: "int \<times> int \<Rightarrow> ShredConfig \<Rightarrow> loop_state \<Rightarrow> bool" where
  "loop_inv size2 cfg s =
     (st_done s \<inter> st_todo s = {} \<and>
      (0, 0) \<in> st_done s \<union> st_todo s \<and>
      st_done s \<union> st_todo s \<subseteq> lattice size2 cfg \<and>
      nstep size2 cfg `` st_done s \<subseteq> st_done s \<union> st_todo s \<and>
      st_graph s = \<lparr>node = node_of size2 cfg (st_done s), edge = edge_of size2 cfg (st_done s)\<rparr>)"

text \<open>
  Scenario A of the spec: a 220 by 220 document, a 100 by 100 mask, offsets \<open>(0, 110)\<close>
  and \<open>(110, 0)\<close>, and the graph expected for it.
\<close>

definition config_A :: ShredConfig where
  "config_A = \<lparr>mask = replicate 100 (replicate 100 255), right = (0, 110), bottom = (110, 0)\<rparr>"

definition graph_A :: graph where
  "graph_A =
     \<lparr>node = (\<lambda>p. if p \<in> {(0, 0), (0, 110), (110, 0), (110, 110)}
                 then Some (Some (to_slice p (100, 100))) else None),
      edge = {{(0, 0), (0, 110)}, {(0, 0), (110, 0)}, {(0, 110), (110, 110)}, {(110, 0), (110, 110)}}\<rparr>"

text \<open>Two nodes are adjacent when an edge joins them.\<close>

definition adjacent :: "graph \<Rightarrow> (point \<times> point) set" where
  "adjacent g = {(u, v). {u, v} \<in> edge g}"

text \<open>
  Scenario B of the spec: \<open>right = (0, 1)\<close>, \<open>bottom = (0, 0)\<close>, here with a 2 by 2 mask in a
  4 by 4 document, and the graph the code returns for it (a path with a self-loop on
  every node).
\<close>

definition config_B :: ShredConfig where
  "config_B = \<lparr>mask = replicate 2 (replicate 2 255), right = (0, 1), bottom = (0, 0)\<rparr>"

definition graph_B :: graph where
  "graph_B =
     \<lparr>node = (\<lambda>p. if p \<in> {(0, 0), (0, 1), (0, 2)}
                 then Some (Some (to_slice p (2, 2))) else None),
      edge = {{(0, 0), (0, 1)}, {(0, 1), (0, 2)}, {(0, 0)}, {(0, 1)}, {(0, 2)}}\<rparr>"

text \<open>A configuration whose 2 by 2 mask exceeds a 1 by 1 document.\<close>

definition config_C :: ShredConfig where
  "config_C = \<lparr>mask = replicate 2 (replicate 2 255), right = (0, 1), bottom = (1, 0)\<rparr>"

text \<open>The graph with the root as its only node and no edge.\<close>

definition root_only :: "ShredConfig \<Rightarrow> graph" where
  "root_only cfg = \<lparr>node = [(0, 0) \<mapsto> Some (to_slice (0, 0) (shape (mask cfg)))], edge = {}\<rparr>"

text \<open>
  A configuration at the edge of \<^verbatim>\<open>int64\<close>: a 100 by 100 mask in a 220 by 220 document,
  with \<open>right = (0, 2\<^sup>6\<^sup>3 - 1)\<close> and \<open>bottom = (110, 0)\<close>, and the graph the code returns for it.
  The neighbour \<open>(0, 2\<^sup>6\<^sup>3 - 1)\<close> of the root passes the guard, because adding the mask's
  shape to it wraps around to a negative number, which is not greater than the size.
\<close>

definition config_W :: ShredConfig where
  "config_W =
     \<lparr>mask = replicate 100 (replicate 100 255), right = (0, 9223372036854775807), bottom = (110, 0)\<rparr>"

definition graph_W :: graph where
  "graph_W =
     \<lparr>node = (\<lambda>p. if p \<in> {(0, 0), (0, 9223372036854775807), (110, 0), (110, 9223372036854775807)}
                 then Some (Some (to_slice p (100, 100))) else None),
      edge = {{(0, 0), (0, 9223372036854775807)}, {(0, 0), (110, 0)},
              {(0, 9223372036854775807), (110, 9223372036854775807)},
              {(110, 0), (110, 9223372036854775807)}}\<rparr>"

section \<open>What \<^verbatim>\<open>preserve_outermost\<close> computes\<close>

text \<open>The array with \<open>h\<close> rows and \<open>w\<close> columns whose pixel at \<open>(r, c)\<close> is \<open>f r c\<close>.\<close>

definition tabulate :: "nat \<Rightarrow> nat \<Rightarrow> (nat \<Rightarrow> nat \<Rightarrow> pixel) \<Rightarrow> image" where
  "tabulate h w f = map (\<lambda>r. map (f r) [0..<w]) [0..<h]"

text \<open>One step of the fill: from a pixel to a fillable 4-neighbour.\<close>

definition fill_step :: "image \<Rightarrow> image \<Rightarrow> pixel \<Rightarrow> ((nat \<times> nat) \<times> (nat \<times> nat)) set" where
  "fill_step a msk v = {(p, q). adj4 p q \<and> fillable a msk v q}"

text \<open>
  The pixels of \<open>outside_mask\<close> and \<open>with_outside\<close>, and of \<open>flood_fill_mask\<close> before the
  fill.
\<close>

definition outside_px :: "image \<Rightarrow> nat \<Rightarrow> nat \<Rightarrow> pixel" where
  "outside_px m r c = (if 254 < px m r c then 0 else 255)"

definition with_outside_px :: "image \<Rightarrow> image \<Rightarrow> nat \<Rightarrow> nat \<Rightarrow> pixel" where
  "with_outside_px i m r c = max (px i r c) (outside_px m r c)"

text \<open>
  One step of the fill inside \<open>with_outside\<close>, and the pixels \<open>preserve_outermost\<close> keeps for
  the seed \<open>s\<close>: those the fill reaches from the seed, and those where \<open>flood_fill_mask\<close>
  was 1 before the fill (where \<open>with_outside\<close> is 254).
\<close>

definition reach_step :: "nat \<Rightarrow> nat \<Rightarrow> image \<Rightarrow> image \<Rightarrow> ((nat \<times> nat) \<times> (nat \<times> nat)) set" where
  "reach_step h w i m =
     {(p, q). adj4 p q \<and> fst q < h \<and> snd q < w \<and> with_outside_px i m (fst q) (snd q) = 255}"

definition kept :: "nat \<Rightarrow> nat \<Rightarrow> image \<Rightarrow> image \<Rightarrow> nat \<times> nat \<Rightarrow> (nat \<times> nat) set" where
  "kept h w i m s =
     {p. p \<in> (reach_step h w i m)\<^sup>* `` {s} \<or> with_outside_px i m (fst p) (snd p) = 254}"

definition marker_px :: "nat \<Rightarrow> nat \<Rightarrow> image \<Rightarrow> image \<Rightarrow> nat \<Rightarrow> nat \<Rightarrow> pixel" where
  "marker_px h w i m r c =
     255 - (if 1 \<le> r \<and> r \<le> h \<and> 1 \<le> c \<and> c \<le> w then with_outside_px i m (r - 1) (c - 1) else 0)"

text \<open>The image \<open>preserve_outermost\<close> returns for the seed \<open>s\<close>.\<close>

definition filtered :: "nat \<Rightarrow> nat \<Rightarrow> image \<Rightarrow> image \<Rightarrow> nat \<times> nat \<Rightarrow> image" where
  "filtered h w i m s = tabulate h w (\<lambda>r c. if (r, c) \<in> kept h w i m s then px i r c else 0)"

section \<open>The loop body\<close>

lemma ensure_node_with: "ensure_node n m = with_nodes {n} m"
  by (auto simp: ensure_node_def with_nodes_def fun_eq_iff split: option.splits)

lemma with_nodes_twice: "with_nodes A (with_nodes B m) = with_nodes (A \<union> B) m"
  by (auto simp: with_nodes_def fun_eq_iff split: option.splits)

lemma with_nodes_empty: "with_nodes {} m = m"
  by (auto simp: with_nodes_def fun_eq_iff split: option.splits)

lemma ok_neighbors_Nil: "ok_neighbors size2 cfg [] = {}"
  by (simp add: ok_neighbors_def)

lemma ok_neighbors_Cons:
  "ok_neighbors size2 cfg (q # qs) =
     (if out_of_bounds size2 (shape (mask cfg)) q then ok_neighbors size2 cfg qs
      else insert q (ok_neighbors size2 cfg qs))"
  by (auto simp: ok_neighbors_def)

lemma fold_visit_done:
  "st_done (fold (visit_neighbor size2 cfg p) qs s) = st_done s"
  by (induction qs arbitrary: s) (auto simp: visit_neighbor_def Let_def)

lemma fold_visit_todo:
  "st_todo (fold (visit_neighbor size2 cfg p) qs s) = st_todo s \<union> (ok_neighbors size2 cfg qs - st_done s)"
  by (induction qs arbitrary: s) (auto simp: visit_neighbor_def Let_def ok_neighbors_Cons ok_neighbors_Nil)

lemma fold_visit_edge:
  "edge (st_graph (fold (visit_neighbor size2 cfg p) qs s)) =
     edge (st_graph s) \<union> (\<lambda>q. {p, q}) ` ok_neighbors size2 cfg qs"
  by (induction qs arbitrary: s)
     (auto simp: visit_neighbor_def Let_def ok_neighbors_Cons ok_neighbors_Nil add_edge_def)

lemma visit_node:
  "node (st_graph (visit_neighbor size2 cfg p q s)) =
     (if out_of_bounds size2 (shape (mask cfg)) q then node (st_graph s)
      else with_nodes {p, q} (node (st_graph s)))"
  by (auto simp: visit_neighbor_def Let_def add_edge_def ensure_node_with with_nodes_twice insert_commute)

lemma fold_visit_node:
  "node (st_graph (fold (visit_neighbor size2 cfg p) qs s)) =
     with_nodes (if ok_neighbors size2 cfg qs = {} then {} else insert p (ok_neighbors size2 cfg qs))
       (node (st_graph s))"
proof (induction qs arbitrary: s)
  case Nil
  show ?case by (simp add: ok_neighbors_Nil with_nodes_empty)
next
  case (Cons q qs)
  have "node (st_graph (fold (visit_neighbor size2 cfg p) (q # qs) s)) =
     with_nodes (if ok_neighbors size2 cfg qs = {} then {} else insert p (ok_neighbors size2 cfg qs))
       (node (st_graph (visit_neighbor size2 cfg p q s)))"
    using Cons.IH [of "visit_neighbor size2 cfg p q s"] by simp
  also have "\<dots> = with_nodes (if ok_neighbors size2 cfg (q # qs) = {} then {}
        else insert p (ok_neighbors size2 cfg (q # qs))) (node (st_graph s))"
    by (auto simp: visit_node ok_neighbors_Cons with_nodes_twice with_nodes_empty
        intro!: arg_cong2 [of _ _ _ _ with_nodes])
  finally show ?case .
qed

section \<open>The invariant\<close>

lemma nstep_Image: "nstep size2 cfg `` {p} = ok_neighbors size2 cfg (neighbors cfg p)"
  by (auto simp: nstep_def)

lemma body_done: "st_done (loop_body size2 cfg p s) = insert p (st_done s)"
  by (simp add: loop_body_def Let_def fold_visit_done)

lemma body_todo:
  "st_todo (loop_body size2 cfg p s) =
     (st_todo s - {p}) \<union> (nstep size2 cfg `` {p} - insert p (st_done s))"
  by (simp add: loop_body_def Let_def fold_visit_todo nstep_Image)

lemma body_edge:
  "edge (st_graph (loop_body size2 cfg p s)) =
     edge (st_graph s) \<union> (\<lambda>q. {p, q}) ` (nstep size2 cfg `` {p})"
  by (simp add: loop_body_def Let_def fold_visit_edge nstep_Image add_node_def)

lemma body_node:
  "node (st_graph (loop_body size2 cfg p s)) =
     with_nodes (nstep size2 cfg `` {p})
       ((node (st_graph s))(p \<mapsto> Some (to_slice p (shape (mask cfg)))))"
  by (auto simp: loop_body_def Let_def fold_visit_node nstep_Image add_node_def with_nodes_def
      fun_eq_iff split: option.splits)

lemma edge_of_insert:
  "edge_of size2 cfg (insert p D) = edge_of size2 cfg D \<union> (\<lambda>q. {p, q}) ` (nstep size2 cfg `` {p})"
  by (auto simp: edge_of_def image_iff) 

lemma node_of_insert:
  "with_nodes (nstep size2 cfg `` {p}) ((node_of size2 cfg D)(p \<mapsto> Some (to_slice p (shape (mask cfg)))))
     = node_of size2 cfg (insert p D)"
  by (auto simp: node_of_def with_nodes_def fun_eq_iff split: option.splits)

lemma lattice_step: "p \<in> lattice size2 cfg \<Longrightarrow> nstep size2 cfg `` {p} \<subseteq> lattice size2 cfg"
  by (auto simp: lattice_def intro: rtrancl_into_rtrancl)

lemma loop_inv_initial: "loop_inv size2 cfg initial_state"
  by (auto simp: loop_inv_def initial_state_def lattice_def empty_graph_def node_of_def edge_of_def)

lemma loop_inv_body:
  assumes inv: "loop_inv size2 cfg s" and p: "p \<in> st_todo s"
  shows "loop_inv size2 cfg (loop_body size2 cfg p s)"
proof -
  let ?s' = "loop_body size2 cfg p s"
  have pl: "p \<in> lattice size2 cfg" and pd: "p \<notin> st_done s"
    using inv p by (auto simp: loop_inv_def)
  have N: "nstep size2 cfg `` {p} \<subseteq> lattice size2 cfg"
    by (rule lattice_step [OF pl])
  have g: "st_graph s = \<lparr>node = node_of size2 cfg (st_done s), edge = edge_of size2 cfg (st_done s)\<rparr>"
    using inv by (simp add: loop_inv_def)
  have 1: "st_done ?s' \<inter> st_todo ?s' = {}"
    using inv pd by (auto simp: body_done body_todo loop_inv_def)
  have 2: "(0, 0) \<in> st_done ?s' \<union> st_todo ?s'"
    using inv by (auto simp: body_done body_todo loop_inv_def)
  have 3: "st_done ?s' \<union> st_todo ?s' \<subseteq> lattice size2 cfg"
    using inv pl N by (auto simp: body_done body_todo loop_inv_def)
  have 4: "nstep size2 cfg `` st_done ?s' \<subseteq> st_done ?s' \<union> st_todo ?s'"
    using inv by (auto simp: body_done body_todo loop_inv_def)
  have 5: "node (st_graph ?s') = node_of size2 cfg (st_done ?s')"
    by (simp add: body_node body_done g node_of_insert)
  have 6: "edge (st_graph ?s') = edge_of size2 cfg (st_done ?s')"
    by (simp add: body_edge body_done g edge_of_insert)
  have "st_graph ?s' = \<lparr>node = node_of size2 cfg (st_done ?s'), edge = edge_of size2 cfg (st_done ?s')\<rparr>"
    using 5 6 by (cases "st_graph ?s'") simp
  with 1 2 3 4 show ?thesis unfolding loop_inv_def by blast
qed

lemma loop_inv_step: "loop_step size2 cfg s s' \<Longrightarrow> loop_inv size2 cfg s \<Longrightarrow> loop_inv size2 cfg s'"
  by (auto elim!: loop_step.cases intro: loop_inv_body)

lemma loop_inv_final:
  assumes inv: "loop_inv size2 cfg s" and e: "st_todo s = {}"
  shows "st_graph s = lattice_graph size2 cfg"
proof -
  have o: "(0, 0) \<in> st_done s" and c: "nstep size2 cfg `` st_done s \<subseteq> st_done s"
    and l: "st_done s \<subseteq> lattice size2 cfg"
    using inv e by (auto simp: loop_inv_def)
  have "q \<in> st_done s" if "((0, 0), q) \<in> (nstep size2 cfg)\<^sup>*" for q
    using that by (induction rule: rtrancl_induct) (use o c in auto)
  then have "st_done s = lattice size2 cfg"
    using l by (auto simp: lattice_def)
  then show ?thesis using inv by (simp add: loop_inv_def lattice_graph_def)
qed

lemma while_todo_result:
  "while_todo size2 cfg s g \<Longrightarrow> loop_inv size2 cfg s \<Longrightarrow> g = lattice_graph size2 cfg"
  by (induction rule: while_todo.induct) (auto intro: loop_inv_final loop_inv_step)

section \<open>Termination and the result of \<^verbatim>\<open>cut_to_shreds\<close>\<close>

lemma finite_lattice: "finite (lattice size2 cfg)"
  by (rule finite_subset [of _ UNIV]) simp_all

lemma body_measure:
  assumes inv: "loop_inv size2 cfg s" and p: "p \<in> st_todo s"
  shows "card (lattice size2 cfg - st_done (loop_body size2 cfg p s)) < card (lattice size2 cfg - st_done s)"
proof -
  have "p \<in> lattice size2 cfg" "p \<notin> st_done s"
    using inv p by (auto simp: loop_inv_def)
  then have "lattice size2 cfg - insert p (st_done s) \<subset> lattice size2 cfg - st_done s"
    by auto
  then show ?thesis
    by (simp add: body_done psubset_card_mono finite_lattice)
qed

lemma while_todo_exists: "loop_inv size2 cfg s \<Longrightarrow> \<exists>g. while_todo size2 cfg s g"
proof (induction "card (lattice size2 cfg - st_done s)" arbitrary: s rule: less_induct)
  case less
  show ?case
  proof (cases "st_todo s = {}")
    case True
    then show ?thesis by (blast intro: while_todo.exit)
  next
    case False
    then obtain p where p: "p \<in> st_todo s" by blast
    let ?s' = "loop_body size2 cfg p s"
    have "\<exists>g. while_todo size2 cfg ?s' g"
      by (rule less.hyps [OF body_measure [OF less.prems p] loop_inv_body [OF less.prems p]])
    then show ?thesis
      using p by (blast intro: while_todo.iter loop_step.pop)
  qed
qed

lemma cut_to_shreds_iff: "cut_to_shreds size2 cfg r \<longleftrightarrow> r = Inr (lattice_graph size2 cfg)"
proof
  assume "cut_to_shreds size2 cfg r"
  then show "r = Inr (lattice_graph size2 cfg)"
    by (auto elim!: cut_to_shreds.cases dest: while_todo_result simp: loop_inv_initial)
next
  assume r: "r = Inr (lattice_graph size2 cfg)"
  obtain g where g: "while_todo size2 cfg initial_state g"
    using while_todo_exists [OF loop_inv_initial] by blast
  then have "g = lattice_graph size2 cfg"
    by (rule while_todo_result) (rule loop_inv_initial)
  with g r show "cut_to_shreds size2 cfg r"
    by (auto intro: cut_to_shreds.returns)
qed

lemma no_infinite_run: "\<not> runs_forever size2 cfg"
proof
  assume "runs_forever size2 cfg"
  then obtain f where f0: "f 0 = initial_state"
    and fs: "\<And>i. loop_step size2 cfg (f i) (f (Suc i))"
    by (auto simp: runs_forever_def)
  have inv: "loop_inv size2 cfg (f i)" for i
    by (induction i) (auto simp: f0 loop_inv_initial intro: loop_inv_step [OF fs])
  define m where "m i = card (lattice size2 cfg - st_done (f i))" for i
  have dec: "m (Suc i) < m i" for i
    using fs [of i] inv [of i] unfolding m_def
    by (auto elim!: loop_step.cases intro: body_measure)
  have "m i + i \<le> m 0" for i
  proof (induction i)
    case 0
    show ?case by simp
  next
    case (Suc i)
    then show ?case using dec [of i] by simp
  qed
  from this [of "Suc (m 0)"] show False by simp
qed

section \<open>Concrete configurations\<close>

lemma lattice_origin: "(0, 0) \<in> lattice size2 cfg"
  by (simp add: lattice_def)

lemma lattice_closed: "nstep size2 cfg `` lattice size2 cfg \<subseteq> lattice size2 cfg"
  using lattice_step by blast

lemma lattice_eqI:
  assumes o: "(0, 0) \<in> L" and c: "\<And>p. p \<in> L \<Longrightarrow> nstep size2 cfg `` {p} \<subseteq> L"
    and r: "L \<subseteq> lattice size2 cfg"
  shows "lattice size2 cfg = L"
proof -
  have "q \<in> L" if "((0, 0), q) \<in> (nstep size2 cfg)\<^sup>*" for q
    using that by (induction rule: rtrancl_induct) (use o c in auto)
  then show ?thesis using r by (auto simp: lattice_def)
qed

lemma node_of_lattice:
  "node_of size2 cfg (lattice size2 cfg) =
     (\<lambda>p. if p \<in> lattice size2 cfg then Some (Some (to_slice p (shape (mask cfg)))) else None)"
  using lattice_closed [of size2 cfg] by (auto simp: node_of_def fun_eq_iff)

lemma edge_of_empty: "edge_of size2 cfg {} = {}"
  by (simp add: edge_of_def)

lemma shape_A: "shape (mask config_A) = (100, 100)"
  by (simp add: config_A_def shape_def)

lemma nstep_A:
  "nstep (220, 220) config_A `` {(0, 0)} = {(0, 110), (110, 0)}"
  "nstep (220, 220) config_A `` {(0, 110)} = {(0, 0), (110, 110)}"
  "nstep (220, 220) config_A `` {(110, 0)} = {(110, 110), (0, 0)}"
  "nstep (220, 220) config_A `` {(110, 110)} = {(110, 0), (0, 110)}"
  by (simp_all add: nstep_Image neighbors_def ok_neighbors_Cons ok_neighbors_Nil shape_A
      out_of_bounds_def vadd_def vsub_def, simp_all add: config_A_def)

lemma lattice_A: "lattice (220, 220) config_A = {(0, 0), (0, 110), (110, 0), (110, 110)}"
proof (rule lattice_eqI)
  show "(0, 0) \<in> {(0, 0), (0, 110), (110, 0), (110, 110) :: point}" by simp
next
  fix p :: point assume "p \<in> {(0, 0), (0, 110), (110, 0), (110, 110)}"
  then show "nstep (220, 220) config_A `` {p} \<subseteq> {(0, 0), (0, 110), (110, 0), (110, 110)}"
    by (elim insertE emptyE) (simp_all add: nstep_A)
next
  have 0: "(0, 0) \<in> lattice (220, 220) config_A" by (rule lattice_origin)
  have 1: "(0, 110) \<in> lattice (220, 220) config_A" "(110, 0) \<in> lattice (220, 220) config_A"
    using lattice_step [OF 0] unfolding nstep_A(1) by simp_all
  have 2: "(110, 110) \<in> lattice (220, 220) config_A"
    using lattice_step [OF 1(1)] unfolding nstep_A(2) by simp
  show "{(0, 0), (0, 110), (110, 0), (110, 110)} \<subseteq> lattice (220, 220) config_A"
    using 0 1 2 by simp
qed

lemma edge_A:
  "edge_of (220, 220) config_A {(0, 0), (0, 110), (110, 0), (110, 110)} =
     {{(0, 0), (0, 110)}, {(0, 0), (110, 0)}, {(0, 110), (110, 110)}, {(110, 0), (110, 110)}}"
  by (simp add: edge_of_insert edge_of_empty nstep_A) (auto simp: insert_commute)

lemma lattice_graph_A: "lattice_graph (220, 220) config_A = graph_A"
proof -
  have "lattice_graph (220, 220) config_A =
      \<lparr>node = (\<lambda>p. if p \<in> lattice (220, 220) config_A
                   then Some (Some (to_slice p (shape (mask config_A)))) else None),
       edge = edge_of (220, 220) config_A (lattice (220, 220) config_A)\<rparr>"
    by (simp add: lattice_graph_def node_of_lattice)
  then show ?thesis
    unfolding lattice_A shape_A edge_A graph_A_def .
qed

lemma dom_if_Some: "dom (\<lambda>p. if p \<in> S then Some (f p) else None) = S"
  by (auto simp: dom_def)

lemma card_nodes_A: "card (dom (node graph_A)) = 4"
  unfolding graph_A_def graph.simps dom_if_Some by simp

lemma card_edges_A: "card (edge graph_A) = 4"
  unfolding graph_A_def graph.simps by (simp add: doubleton_eq_iff)

section \<open>Nodes and edges of the result\<close>

lemma vadd_fixed: "vadd p d = p \<longleftrightarrow> d = (0, 0)"
  by (cases p; cases d) (simp add: vadd_def)

lemma vsub_fixed: "vsub p d = p \<longleftrightarrow> d = (0, 0)"
  by (cases p; cases d) (simp add: vsub_def)

lemma dom_node_lattice_graph: "dom (node (lattice_graph size2 cfg)) = lattice size2 cfg"
  by (simp add: lattice_graph_def node_of_lattice dom_if_Some)

lemma node_lattice_graph:
  "node (lattice_graph size2 cfg) p =
     (if p \<in> lattice size2 cfg then Some (Some (to_slice p (shape (mask cfg)))) else None)"
  by (simp add: lattice_graph_def node_of_lattice)

lemma edge_lattice_graph:
  "{a, b} \<in> edge (lattice_graph size2 cfg) \<longleftrightarrow>
     (a \<in> lattice size2 cfg \<and> (a, b) \<in> nstep size2 cfg) \<or>
     (b \<in> lattice size2 cfg \<and> (b, a) \<in> nstep size2 cfg)"
  by (auto simp: lattice_graph_def edge_of_def doubleton_eq_iff image_iff)

lemma lattice_connected:
  assumes "p \<in> lattice size2 cfg"
  shows "((0, 0), p) \<in> (adjacent (lattice_graph size2 cfg))\<^sup>*"
proof -
  have "((0, 0), p) \<in> (nstep size2 cfg)\<^sup>*"
    using assms by (simp add: lattice_def)
  then show ?thesis
  proof (induction rule: rtrancl_induct)
    case base
    show ?case by simp
  next
    case (step y z)
    have "y \<in> lattice size2 cfg" using step.hyps(1) by (simp add: lattice_def)
    then have "(y, z) \<in> adjacent (lattice_graph size2 cfg)"
      using step.hyps(2) by (simp add: adjacent_def edge_lattice_graph)
    with step.IH show ?case by (rule rtrancl_into_rtrancl)
  qed
qed

lemma no_self_loop:
  assumes "right cfg \<noteq> (0, 0)" "bottom cfg \<noteq> (0, 0)"
  shows "{p} \<notin> edge (lattice_graph size2 cfg)"
proof -
  have "vadd p (right cfg) \<noteq> p" "vsub p (right cfg) \<noteq> p"
    "vadd p (bottom cfg) \<noteq> p" "vsub p (bottom cfg) \<noteq> p"
    using assms by (simp_all only: vadd_fixed vsub_fixed not_False_eq_True)
  then have "p \<notin> set (neighbors cfg p)"
    unfolding neighbors_def by (simp only: set_simps insert_iff empty_iff) metis
  then have "(p, p) \<notin> nstep size2 cfg"
    by (simp add: nstep_def ok_neighbors_def)
  then show ?thesis using edge_lattice_graph [of p p size2 cfg] by simp
qed

lemma shape_B: "shape (mask config_B) = (2, 2)"
  by (simp add: config_B_def shape_def)

lemma shape_C: "shape (mask config_C) = (2, 2)"
  by (simp add: config_C_def shape_def)

lemma shape_W: "shape (mask config_W) = (100, 100)"
  by (simp add: config_W_def shape_def)

lemma nstep_B:
  "nstep (4, 4) config_B `` {(0, 0)} = {(0, 1), (0, 0)}"
  "nstep (4, 4) config_B `` {(0, 1)} = {(0, 0), (0, 2), (0, 1)}"
  "nstep (4, 4) config_B `` {(0, 2)} = {(0, 1), (0, 2)}"
  by (simp_all add: nstep_Image neighbors_def ok_neighbors_Cons ok_neighbors_Nil shape_B
      out_of_bounds_def vadd_def vsub_def, simp_all add: config_B_def)

lemma lattice_B: "lattice (4, 4) config_B = {(0, 0), (0, 1), (0, 2)}"
proof (rule lattice_eqI)
  show "(0, 0) \<in> {(0, 0), (0, 1), (0, 2) :: point}" by simp
next
  fix p :: point assume "p \<in> {(0, 0), (0, 1), (0, 2)}"
  then show "nstep (4, 4) config_B `` {p} \<subseteq> {(0, 0), (0, 1), (0, 2)}"
    by (elim insertE emptyE) (simp_all add: nstep_B)
next
  have 0: "(0, 0) \<in> lattice (4, 4) config_B" by (rule lattice_origin)
  have 1: "(0, 1) \<in> lattice (4, 4) config_B"
    using lattice_step [OF 0] unfolding nstep_B(1) by simp
  have 2: "(0, 2) \<in> lattice (4, 4) config_B"
    using lattice_step [OF 1] unfolding nstep_B(2) by simp
  show "{(0, 0), (0, 1), (0, 2)} \<subseteq> lattice (4, 4) config_B"
    using 0 1 2 by simp
qed

lemma edge_B:
  "edge_of (4, 4) config_B {(0, 0), (0, 1), (0, 2)} =
     {{(0, 0), (0, 1)}, {(0, 1), (0, 2)}, {(0, 0)}, {(0, 1)}, {(0, 2)}}"
  unfolding edge_of_insert edge_of_empty nstep_B by (simp add: insert_commute)

lemma lattice_graph_B: "lattice_graph (4, 4) config_B = graph_B"
proof -
  have "lattice_graph (4, 4) config_B =
      \<lparr>node = (\<lambda>p. if p \<in> lattice (4, 4) config_B
                   then Some (Some (to_slice p (shape (mask config_B)))) else None),
       edge = edge_of (4, 4) config_B (lattice (4, 4) config_B)\<rparr>"
    by (simp add: lattice_graph_def node_of_lattice)
  then show ?thesis
    unfolding lattice_B shape_B edge_B graph_B_def .
qed

lemma nstep_C: "nstep (1, 1) config_C `` {(0, 0)} = {}"
  by (simp add: nstep_Image neighbors_def ok_neighbors_Cons ok_neighbors_Nil shape_C
      out_of_bounds_def vadd_def vsub_def, simp add: config_C_def)

lemma lattice_C: "lattice (1, 1) config_C = {(0, 0)}"
proof (rule lattice_eqI)
  show "(0, 0) \<in> {(0, 0) :: point}" by simp
next
  fix p :: point assume "p \<in> {(0, 0)}"
  then show "nstep (1, 1) config_C `` {p} \<subseteq> {(0, 0)}"
    by (simp add: nstep_C)
next
  show "{(0, 0)} \<subseteq> lattice (1, 1) config_C"
    using lattice_origin [of "(1, 1)" config_C] by simp
qed

lemma lattice_graph_C: "lattice_graph (1, 1) config_C = root_only config_C"
proof -
  have n: "(\<lambda>p. if p \<in> {(0, 0)} then Some (Some (to_slice p (shape (mask config_C)))) else None) =
      [(0, 0) \<mapsto> Some (to_slice (0, 0) (shape (mask config_C)))]"
    by (auto simp: fun_eq_iff)
  have "lattice_graph (1, 1) config_C =
      \<lparr>node = (\<lambda>p. if p \<in> lattice (1, 1) config_C
                   then Some (Some (to_slice p (shape (mask config_C)))) else None),
       edge = edge_of (1, 1) config_C (lattice (1, 1) config_C)\<rparr>"
    by (simp add: lattice_graph_def node_of_lattice)
  then show ?thesis
    unfolding lattice_C n edge_of_insert edge_of_empty nstep_C root_only_def by simp
qed

lemma nstep_W:
  "nstep (220, 220) config_W `` {(0, 0)} = {(0, 9223372036854775807), (110, 0)}"
  "nstep (220, 220) config_W `` {(0, 9223372036854775807)} = {(0, 0), (110, 9223372036854775807)}"
  "nstep (220, 220) config_W `` {(110, 0)} = {(110, 9223372036854775807), (0, 0)}"
  "nstep (220, 220) config_W `` {(110, 9223372036854775807)} = {(110, 0), (0, 9223372036854775807)}"
  by (simp_all add: nstep_Image neighbors_def ok_neighbors_Cons ok_neighbors_Nil shape_W
      out_of_bounds_def vadd_def vsub_def, simp_all add: config_W_def)

lemma lattice_W:
  "lattice (220, 220) config_W =
     {(0, 0), (0, 9223372036854775807), (110, 0), (110, 9223372036854775807)}"
proof (rule lattice_eqI)
  show "(0, 0) \<in> {(0, 0), (0, 9223372036854775807), (110, 0), (110, 9223372036854775807) :: point}"
    by simp
next
  fix p :: point
  assume "p \<in> {(0, 0), (0, 9223372036854775807), (110, 0), (110, 9223372036854775807)}"
  then show "nstep (220, 220) config_W `` {p}
      \<subseteq> {(0, 0), (0, 9223372036854775807), (110, 0), (110, 9223372036854775807)}"
    by (elim insertE emptyE) (simp_all add: nstep_W)
next
  have 0: "(0, 0) \<in> lattice (220, 220) config_W" by (rule lattice_origin)
  have 1: "(0, 9223372036854775807) \<in> lattice (220, 220) config_W"
    "(110, 0) \<in> lattice (220, 220) config_W"
    using lattice_step [OF 0] unfolding nstep_W(1) by simp_all
  have 2: "(110, 9223372036854775807) \<in> lattice (220, 220) config_W"
    using lattice_step [OF 1(1)] unfolding nstep_W(2) by simp
  show "{(0, 0), (0, 9223372036854775807), (110, 0), (110, 9223372036854775807)}
      \<subseteq> lattice (220, 220) config_W"
    using 0 1 2 by simp
qed

lemma edge_W:
  "edge_of (220, 220) config_W
       {(0, 0), (0, 9223372036854775807), (110, 0), (110, 9223372036854775807)} =
     {{(0, 0), (0, 9223372036854775807)}, {(0, 0), (110, 0)},
      {(0, 9223372036854775807), (110, 9223372036854775807)},
      {(110, 0), (110, 9223372036854775807)}}"
  by (simp add: edge_of_insert edge_of_empty nstep_W) (auto simp: insert_commute)

lemma lattice_graph_W: "lattice_graph (220, 220) config_W = graph_W"
proof -
  have "lattice_graph (220, 220) config_W =
      \<lparr>node = (\<lambda>p. if p \<in> lattice (220, 220) config_W
                   then Some (Some (to_slice p (shape (mask config_W)))) else None),
       edge = edge_of (220, 220) config_W (lattice (220, 220) config_W)\<rparr>"
    by (simp add: lattice_graph_def node_of_lattice)
  then show ?thesis
    unfolding lattice_W shape_W edge_W graph_W_def .
qed

lemma run_W: "cut_to_shreds (220, 220) config_W r \<longleftrightarrow> r = Inr graph_W"
  by (simp add: cut_to_shreds_iff lattice_graph_W)

lemma dom_node_W:
  "dom (node graph_W) = {(0, 0), (0, 9223372036854775807), (110, 0), (110, 9223372036854775807)}"
  unfolding graph_W_def graph.simps dom_if_Some by simp

section \<open>The claims about \<^verbatim>\<open>cut_to_shreds\<close>\<close>

text \<open>
  C1, as the code has it. For every size and every shred configuration, malformed ones
  included, \<^verbatim>\<open>cut_to_shreds\<close> does not loop forever and does not fail, with
  InvalidConfiguration or otherwise (the code validates nothing): it returns a graph, and
  every graph it returns has the root node \<open>(0, 0)\<close>.
\<close>

theorem cut_to_shreds_never_fails:
  "\<not> runs_forever size2 cfg \<and>
   (\<exists>g. cut_to_shreds size2 cfg (Inr g)) \<and>
   (\<forall>r. cut_to_shreds size2 cfg r \<longrightarrow>
      r \<noteq> Inl InvalidConfiguration \<and> (\<exists>g. r = Inr g \<and> node g (0, 0) \<noteq> None))"
  using lattice_origin [of size2 cfg]
  by (auto simp: no_infinite_run cut_to_shreds_iff node_lattice_graph)

theorem cut_to_shreds_never_fails_witness:
  "cut_to_shreds (1, 1) config_C (Inr (root_only config_C)) \<and>
   Inr (root_only config_C) \<noteq> (Inl InvalidConfiguration :: error + graph) \<and>
   node (root_only config_C) (0, 0) \<noteq> None \<and>
   \<not> runs_forever (1, 1) config_C"
proof -
  have run: "cut_to_shreds (1, 1) config_C (Inr (root_only config_C))"
    by (simp add: cut_to_shreds_iff lattice_graph_C)
  from cut_to_shreds_never_fails [of "(1, 1)" config_C] run show ?thesis
    by auto
qed

text \<open>
  C1 in the spec's wording fails: with \<open>right = (0, 1)\<close> and \<open>bottom = (0, 0)\<close> the call
  returns a graph and raises nothing.
\<close>

theorem degenerate_offsets_counterexample:
  "right config_B = (0, 1) \<and> bottom config_B = (0, 0) \<and>
   cut_to_shreds (4, 4) config_B (Inr graph_B) \<and>
   \<not> cut_to_shreds (4, 4) config_B (Inl InvalidConfiguration) \<and>
   \<not> runs_forever (4, 4) config_B"
proof -
  have "right config_B = (0, 1) \<and> bottom config_B = (0, 0)"
    by (simp add: config_B_def)
  then show ?thesis
    by (simp add: cut_to_shreds_iff lattice_graph_B no_infinite_run)
qed

text \<open>
  C3 does not hold of the code. For a 100 by 100 mask in a 220 by 220 document with
  \<open>right = (0, 2\<^sup>6\<^sup>3 - 1)\<close> and \<open>bottom = (110, 0)\<close>, the graph returned joins its nodes \<open>(0, 0)\<close>
  and \<open>(0, 2\<^sup>6\<^sup>3 - 1)\<close>, which differ by \<open>right\<close>, by an edge, although the slice of the second
  is not in bounds: its column plus the mask's width exceeds the size. The guard let
  the neighbour pass because its \<^verbatim>\<open>int64\<close> addition wrapped around.
\<close>

theorem cut_to_shreds_overflow_edge:
  "(\<forall>r. cut_to_shreds (220, 220) config_W r \<longleftrightarrow> r = Inr graph_W) \<and>
   (0, 0) \<in> dom (node graph_W) \<and> (0, 9223372036854775807) \<in> dom (node graph_W) \<and>
   {(0, 0), (0, 9223372036854775807)} \<in> edge graph_W \<and>
   vsub (0, 9223372036854775807) (0, 0) = right config_W \<and>
   220 < sint (9223372036854775807 :: coord) + snd (shape (mask config_W)) \<and>
   \<not> slice_within (to_slice (0, 9223372036854775807) (shape (mask config_W))) (220, 220)"
proof -
  have e: "{(0, 0), (0, 9223372036854775807)} \<in> edge graph_W"
    by (simp add: graph_W_def)
  have v: "vsub (0, 9223372036854775807) (0, 0) = right config_W"
    by (simp add: vsub_def config_W_def)
  have s: "\<not> slice_within (to_slice (0, 9223372036854775807) (shape (mask config_W))) (220, 220)"
    by (simp add: shape_W to_slice_def slice_within_def)
  have b: "220 < sint (9223372036854775807 :: coord) + snd (shape (mask config_W))"
    by (simp add: shape_W)
  show ?thesis
    using e v s b by (simp add: run_W dom_node_W)
qed

lemma run_A: "cut_to_shreds (220, 220) config_A (Inr graph_A)"
  by (simp add: cut_to_shreds_iff lattice_graph_A)

lemma dom_node_A: "dom (node graph_A) = {(0, 0), (0, 110), (110, 0), (110, 110)}"
  unfolding graph_A_def graph.simps dom_if_Some by simp

text \<open>
  C4 does not hold of the code. For a 100 by 100 mask in a 220 by 220 document (the mask's
  shape does not exceed the size) with \<open>right = (0, 2\<^sup>6\<^sup>3 - 1)\<close> and \<open>bottom = (110, 0)\<close>,
  the graph returned has the node \<open>(0, 2\<^sup>6\<^sup>3 - 1)\<close>, whose slice attribute, the 100 by 100
  rectangle anchored there, does not lie within \<open>[0, size)\<close>: the anchor's column is already
  beyond the document. The guard let the neighbour pass because its \<^verbatim>\<open>int64\<close> addition
  wrapped around.
\<close>

theorem cut_to_shreds_overflow_node:
  "fst (shape (mask config_W)) \<le> 220 \<and> snd (shape (mask config_W)) \<le> 220 \<and>
   (\<forall>r. cut_to_shreds (220, 220) config_W r \<longleftrightarrow> r = Inr graph_W) \<and>
   node graph_W (0, 9223372036854775807) =
     Some (Some ((0, 100), (9223372036854775807, 9223372036854775907))) \<and>
   \<not> slice_within ((0, 100), (9223372036854775807, 9223372036854775907)) (220, 220) \<and>
   220 < sint (9223372036854775807 :: coord) \<and>
   \<not> out_of_bounds (220, 220) (shape (mask config_W)) (0, 9223372036854775807)"
proof -
  have n: "node graph_W (0, 9223372036854775807) =
      Some (Some ((0, 100), (9223372036854775807, 9223372036854775907)))"
    by (simp add: graph_W_def to_slice_def)
  have s: "\<not> slice_within ((0, 100), (9223372036854775807, 9223372036854775907)) (220, 220)"
    by (simp add: slice_within_def)
  have g: "\<not> out_of_bounds (220, 220) (shape (mask config_W)) (0, 9223372036854775807)"
    by (simp add: shape_W out_of_bounds_def)
  show ?thesis
    using n s g by (simp add: run_W shape_W)
qed

text \<open>
  C6. For a configuration whose offsets are both nonzero, every node of the graph returned
  is reachable from the root \<open>(0, 0)\<close> along edges of the graph, and the graph has no
  self-loop.
\<close>

theorem cut_to_shreds_connected:
  assumes "cut_to_shreds size2 cfg r" and "right cfg \<noteq> (0, 0)" and "bottom cfg \<noteq> (0, 0)"
  shows "\<exists>g. r = Inr g \<and>
    (\<forall>p \<in> dom (node g). ((0, 0), p) \<in> (adjacent g)\<^sup>*) \<and>
    (\<forall>p. {p} \<notin> edge g)"
  using assms(1) no_self_loop [OF assms(2,3)] unfolding cut_to_shreds_iff
  by (simp add: dom_node_lattice_graph lattice_connected)

theorem cut_to_shreds_connected_witness:
  "cut_to_shreds (220, 220) config_A (Inr graph_A) \<and>
   right config_A \<noteq> (0, 0) \<and> bottom config_A \<noteq> (0, 0) \<and>
   (110, 110) \<in> dom (node graph_A) \<and>
   ((0, 0), (110, 110)) \<in> (adjacent graph_A)\<^sup>* \<and>
   {(110, 110)} \<notin> edge graph_A"
proof -
  have n: "right config_A \<noteq> (0, 0)" "bottom config_A \<noteq> (0, 0)"
    by (simp_all add: config_A_def)
  have d: "(110, 110) \<in> dom (node graph_A)"
    by (simp add: dom_node_A)
  from cut_to_shreds_connected [OF run_A n] d
  have "((0, 0), (110, 110)) \<in> (adjacent graph_A)\<^sup>* \<and> {(110, 110)} \<notin> edge graph_A"
    by auto
  then show ?thesis using run_A n d by simp
qed

text \<open>
  C7. In scenario A (size \<open>(220, 220)\<close>, \<open>right = (0, 110)\<close>, \<open>bottom = (110, 0)\<close>, a mask of
  shape \<open>(100, 100)\<close>) the graph returned has exactly the four nodes \<open>(0, 0)\<close>, \<open>(0, 110)\<close>,
  \<open>(110, 0)\<close>, \<open>(110, 110)\<close> and exactly four edges, which form one cycle through the four
  nodes.
\<close>

theorem cut_to_shreds_scenario_A:
  "(\<forall>r. cut_to_shreds (220, 220) config_A r \<longleftrightarrow> r = Inr graph_A) \<and>
   shape (mask config_A) = (100, 100) \<and> right config_A = (0, 110) \<and> bottom config_A = (110, 0) \<and>
   dom (node graph_A) = {(0, 0), (0, 110), (110, 0), (110, 110)} \<and>
   edge graph_A =
     {{(0, 0), (0, 110)}, {(0, 110), (110, 110)}, {(110, 110), (110, 0)}, {(110, 0), (0, 0)}} \<and>
   card (dom (node graph_A)) = 4 \<and> card (edge graph_A) = 4"
proof -
  have a: "\<forall>r. cut_to_shreds (220, 220) config_A r \<longleftrightarrow> r = Inr graph_A"
    by (simp add: cut_to_shreds_iff lattice_graph_A)
  have b: "right config_A = (0, 110)" and c: "bottom config_A = (110, 0)"
    by (simp_all add: config_A_def)
  have d: "edge graph_A =
     {{(0, 0), (0, 110)}, {(0, 110), (110, 110)}, {(110, 110), (110, 0)}, {(110, 0), (0, 0)}}"
    unfolding graph_A_def graph.simps by (simp add: insert_commute)
  have e: "card (edge graph_A) = 4"
    by (rule card_edges_A)
  show ?thesis
    by (intro conjI a b c d e shape_A dom_node_A card_nodes_A)
qed

text \<open>
  C8. The outcome does not depend on the order in which \<^verbatim>\<open>todo.pop()\<close> hands out the
  elements: any two executions for the same size and configuration return the same
  graph (the same nodes, the same slice attributes, the same edges).
\<close>

theorem cut_to_shreds_deterministic:
  assumes "cut_to_shreds size2 cfg r" and "cut_to_shreds size2 cfg r'"
  shows "r = r'"
  using assms by (simp add: cut_to_shreds_iff)

text \<open>
  In scenario A the first pass pops \<open>(0, 0)\<close> and leaves \<open>(0, 110)\<close> and \<open>(110, 0)\<close> in
  \<open>todo\<close>: the second pass can pop either, the two states that result differ, and the
  executions that go on from them return the same graph.
\<close>

theorem cut_to_shreds_deterministic_witness:
  "st_todo (loop_body (220, 220) config_A (0, 0) initial_state) = {(0, 110), (110, 0)} \<and>
   loop_step (220, 220) config_A initial_state (loop_body (220, 220) config_A (0, 0) initial_state) \<and>
   loop_step (220, 220) config_A (loop_body (220, 220) config_A (0, 0) initial_state)
     (loop_body (220, 220) config_A (0, 110) (loop_body (220, 220) config_A (0, 0) initial_state)) \<and>
   loop_step (220, 220) config_A (loop_body (220, 220) config_A (0, 0) initial_state)
     (loop_body (220, 220) config_A (110, 0) (loop_body (220, 220) config_A (0, 0) initial_state)) \<and>
   st_done (loop_body (220, 220) config_A (0, 110) (loop_body (220, 220) config_A (0, 0) initial_state))
     \<noteq> st_done (loop_body (220, 220) config_A (110, 0) (loop_body (220, 220) config_A (0, 0) initial_state)) \<and>
   cut_to_shreds (220, 220) config_A (Inr graph_A) \<and>
   cut_to_shreds (220, 220) config_A (Inr (lattice_graph (220, 220) config_A)) \<and>
   (Inr graph_A :: error + graph) = Inr (lattice_graph (220, 220) config_A)"
proof -
  let ?s1 = "loop_body (220, 220) config_A (0, 0) initial_state"
  have t: "st_todo ?s1 = {(0, 110), (110, 0)}"
    by (simp add: body_todo nstep_A initial_state_def)
  have d: "st_done ?s1 = {(0, 0)}"
    by (simp add: body_done initial_state_def)
  have 0: "loop_step (220, 220) config_A initial_state ?s1"
    by (rule loop_step.pop) (simp add: initial_state_def)
  have a: "loop_step (220, 220) config_A ?s1 (loop_body (220, 220) config_A (0, 110) ?s1)"
    by (rule loop_step.pop) (simp add: t)
  have b: "loop_step (220, 220) config_A ?s1 (loop_body (220, 220) config_A (110, 0) ?s1)"
    by (rule loop_step.pop) (simp add: t)
  have n: "st_done (loop_body (220, 220) config_A (0, 110) ?s1)
      \<noteq> st_done (loop_body (220, 220) config_A (110, 0) ?s1)"
  proof -
    have "(0, 110) \<in> st_done (loop_body (220, 220) config_A (0, 110) ?s1)"
      by (simp add: body_done)
    moreover have "(0, 110) \<notin> st_done (loop_body (220, 220) config_A (110, 0) ?s1)"
      by (simp add: body_done initial_state_def)
    ultimately show ?thesis by metis
  qed
  have 1: "cut_to_shreds (220, 220) config_A (Inr graph_A)"
    by (rule run_A)
  have 2: "cut_to_shreds (220, 220) config_A (Inr (lattice_graph (220, 220) config_A))"
    by (simp add: cut_to_shreds_iff)
  from cut_to_shreds_deterministic [OF 1 2] have "(Inr graph_A :: error + graph) = Inr (lattice_graph (220, 220) config_A)" .
  with t 0 a b n 1 2 show ?thesis by blast
qed

text \<open>
  C10. For every size and every configuration, also when the mask's shape exceeds the
  size, \<^verbatim>\<open>cut_to_shreds\<close> returns a graph in which \<open>(0, 0)\<close> is a node with its slice
  attribute: the graph returned is never empty.
\<close>

theorem cut_to_shreds_root_node:
  "(\<exists>r. cut_to_shreds size2 cfg r) \<and>
   (\<forall>r. cut_to_shreds size2 cfg r \<longrightarrow>
      (\<exists>g. r = Inr g \<and> node g (0, 0) = Some (Some (to_slice (0, 0) (shape (mask cfg)))) \<and>
           dom (node g) \<noteq> {}))"
proof -
  have n: "node (lattice_graph size2 cfg) (0, 0) = Some (Some (to_slice (0, 0) (shape (mask cfg))))"
    by (simp add: node_lattice_graph lattice_origin)
  have d: "dom (node (lattice_graph size2 cfg)) \<noteq> {}"
    unfolding dom_node_lattice_graph using lattice_origin [of size2 cfg] by blast
  show ?thesis
    unfolding cut_to_shreds_iff using n d by blast
qed

theorem cut_to_shreds_root_node_witness:
  "out_of_bounds (1, 1) (shape (mask config_C)) (0, 0) \<and>
   cut_to_shreds (1, 1) config_C (Inr (root_only config_C)) \<and>
   node (root_only config_C) (0, 0) = Some (Some ((0, 2), (0, 2)))"
proof -
  have o: "out_of_bounds (1, 1) (shape (mask config_C)) (0, 0)"
    by (simp add: out_of_bounds_def shape_C)
  have run: "cut_to_shreds (1, 1) config_C (Inr (root_only config_C))"
    by (simp add: cut_to_shreds_iff lattice_graph_C)
  from cut_to_shreds_root_node [of "(1, 1)" config_C] run
  have "node (root_only config_C) (0, 0) = Some (Some (to_slice (0, 0) (shape (mask config_C))))"
    by auto
  then show ?thesis using o run by (simp add: shape_C to_slice_def)
qed

section \<open>Pixel arithmetic\<close>

lemma gt254: "(254 < (v::8 word)) = (v = 255)"
proof -
  have "unat v < 256" using unsigned_less [of v, where 'a = nat] by simp
  then show ?thesis by (auto simp: word_less_nat_alt word_unat_eq_iff)
qed

lemma le255: "(v::8 word) \<le> 255"
proof -
  have "unat v < 256" using unsigned_less [of v, where 'a = nat] by simp
  then show ?thesis by (simp add: word_le_nat_alt)
qed

lemma ge255: "(255 \<le> (v::8 word)) = (v = 255)"
  using le255 [of v] by auto

lemma max255: "(max (i::8 word) j = 255) = (i = 255 \<or> j = 255)"
  using le255 [of i] le255 [of j] by (auto simp: max_def ge255)

lemma max0: "max (i::8 word) 0 = i"
  by (simp add: max_def)

lemma maxtop: "max (i::8 word) 255 = 255"
  using le255 [of i] by (simp add: max_def)

lemma sub0: "(255 - (w::8 word) = 0) = (w = 255)"
  by auto

lemma sub1: "(255 - (w::8 word) = 1) = (w = 254)"
proof
  assume "255 - w = 1"
  then have "255 - (255 - w) = 255 - 1" by simp
  then show "w = 254" by simp
qed simp

section \<open>The array operations, pixel by pixel\<close>

lemma rectangular_iff:
  "rectangular h w a \<longleftrightarrow> length a = h \<and> (\<forall>r<h. length (a ! r) = w)"
  by (auto simp: rectangular_def list_all_length)

lemma rectangular_tabulate: "rectangular h w (tabulate h w f)"
  by (simp add: rectangular_iff tabulate_def)

lemma px_tabulate: "r < h \<Longrightarrow> c < w \<Longrightarrow> px (tabulate h w f) r c = f r c"
  by (simp add: px_def tabulate_def)

lemma tabulate_px: "rectangular h w a \<Longrightarrow> tabulate h w (px a) = a"
  unfolding rectangular_iff tabulate_def px_def
  by (auto intro!: nth_equalityI)

lemma tabulate_cong:
  "(\<And>r c. r < h \<Longrightarrow> c < w \<Longrightarrow> f r c = g r c) \<Longrightarrow> tabulate h w f = tabulate h w g"
  by (simp add: tabulate_def)

lemma tabulate_eqI:
  assumes "rectangular h w a" and "\<And>r c. r < h \<Longrightarrow> c < w \<Longrightarrow> px a r c = f r c"
  shows "a = tabulate h w f"
  using tabulate_px [OF assms(1)] tabulate_cong [of h w "px a" f] assms(2) by simp

lemma threshold_tabulate:
  assumes "rectangular h w a"
  shows "threshold_binary_inv a t m = tabulate h w (\<lambda>r c. if px a r c > t then 0 else m)"
  using assms by (intro tabulate_eqI) (auto simp: rectangular_iff threshold_binary_inv_def px_def)

lemma maximum_tabulate:
  assumes "rectangular h w a" "rectangular h w b"
  shows "maximum a b = tabulate h w (\<lambda>r c. max (px a r c) (px b r c))"
  using assms by (intro tabulate_eqI) (auto simp: rectangular_iff maximum_def px_def)

lemma rsub_tabulate:
  assumes "rectangular h w a"
  shows "rsub k a = tabulate h w (\<lambda>r c. k - px a r c)"
  using assms by (intro tabulate_eqI) (auto simp: rectangular_iff rsub_def px_def)

lemma eq_mask_tabulate:
  assumes "rectangular h w a"
  shows "eq_mask a v = tabulate h w (\<lambda>r c. if px a r c = v then 1 else 0)"
  using assms by (intro tabulate_eqI) (auto simp: rectangular_iff eq_mask_def px_def)

lemma bitwise_and_tabulate:
  assumes "rectangular h w a" "rectangular h w b" "rectangular h w m"
  shows "bitwise_and_masked a b m =
     tabulate h w (\<lambda>r c. if px m r c \<noteq> 0 then px a r c AND px b r c else 0)"
  using assms by (intro tabulate_eqI) (auto simp: rectangular_iff bitwise_and_masked_def px_def)

lemma paint_tabulate:
  assumes "rectangular h w a"
  shows "paint off a R v =
     tabulate h w (\<lambda>r c. if off \<le> r \<and> off \<le> c \<and> (r - off, c - off) \<in> R then v else px a r c)"
  using assms by (intro tabulate_eqI) (auto simp: rectangular_iff paint_def px_def)

lemma crop1_tabulate:
  assumes "rectangular (h + 2) (w + 2) a"
  shows "crop1 a = tabulate h w (\<lambda>r c. px a (r + 1) (c + 1))"
  using assms
  by (intro tabulate_eqI)
     (auto simp: rectangular_iff crop1_def px_def nth_butlast nth_tl)

lemma pad_image_tabulate:
  assumes "rectangular h w a" "0 < h"
  shows "pad_image a 1 =
     tabulate (h + 2) (w + 2)
       (\<lambda>r c. if 1 \<le> r \<and> r \<le> h \<and> 1 \<le> c \<and> c \<le> w then px a (r - 1) (c - 1) else 0)"
proof -
  have w: "length (hd a) = w" and ne: "a \<noteq> []"
    using assms by (auto simp: rectangular_iff hd_conv_nth)
  show ?thesis
    using assms
    by (intro tabulate_eqI)
       (auto simp: rectangular_iff pad_image_def px_def w ne nth_append nth_Cons' Let_def)
qed

section \<open>The flood fill reaches its fixed point\<close>

lemma set_pixels: "set (pixels a) = {p. fst p < length a \<and> snd p < length (a ! fst p)}"
  by (auto simp: pixels_def)

lemma fillable_pixels: "fillable a msk v q \<Longrightarrow> q \<in> set (pixels a)"
  by (simp add: set_pixels fillable_def)

lemma grow_eq: "grow a msk v S = S \<union> fill_step a msk v `` S"
  by (auto simp: grow_def fill_step_def fillable_pixels)

lemma funpow_fixed: "f X = X \<Longrightarrow> (f ^^ m) X = X"
  by (induction m) simp_all

lemma funpow_fixpoint:
  fixes f :: "'a set \<Rightarrow> 'a set"
  assumes infl: "\<And>S. S \<subseteq> f S" and bound: "\<And>k. (f ^^ k) A \<subseteq> C"
    and fin: "finite C" and n: "card C \<le> n"
  shows "f ((f ^^ n) A) = (f ^^ n) A"
proof (rule ccontr)
  assume neq: "f ((f ^^ n) A) \<noteq> (f ^^ n) A"
  have strict: "(f ^^ k) A \<subset> (f ^^ Suc k) A" if "k \<le> n" for k
  proof -
    have "f ((f ^^ k) A) \<noteq> (f ^^ k) A"
    proof
      assume fx: "f ((f ^^ k) A) = (f ^^ k) A"
      have "(f ^^ n) A = (f ^^ (n - k)) ((f ^^ k) A)"
        using that funpow_add [of "n - k" k f] by simp
      also have "\<dots> = (f ^^ k) A"
        using fx by (rule funpow_fixed [of f "(f ^^ k) A" "n - k"])
      finally show False using neq fx by simp
    qed
    then show ?thesis using infl [of "(f ^^ k) A"] by auto
  qed
  have finite_k: "finite ((f ^^ k) A)" for k
    by (rule finite_subset [OF bound fin])
  have "k \<le> card ((f ^^ k) A)" if "k \<le> Suc n" for k
    using that
  proof (induction k)
    case 0
    show ?case by simp
  next
    case (Suc k)
    then have "k \<le> card ((f ^^ k) A)" and "k \<le> n" by simp_all
    moreover have "card ((f ^^ k) A) < card ((f ^^ Suc k) A)"
      by (rule psubset_card_mono [OF finite_k strict]) (use Suc.prems in simp)
    ultimately show ?case by simp
  qed
  from this [of "Suc n"] have "Suc n \<le> card ((f ^^ Suc n) A)" by simp
  also have "\<dots> \<le> card C"
    by (rule card_mono [OF fin bound])
  finally show False using n by simp
qed

lemma grow_pow_subset_rtrancl:
  "(grow a msk v ^^ k) A \<subseteq> (fill_step a msk v)\<^sup>* `` A"
proof (induction k)
  case 0
  show ?case by auto
next
  case (Suc k)
  let ?X = "(grow a msk v ^^ k) A"
  have "fill_step a msk v `` ((fill_step a msk v)\<^sup>* `` A) \<subseteq> (fill_step a msk v)\<^sup>* `` A"
    by (auto intro: rtrancl_into_rtrancl)
  then have "?X \<union> fill_step a msk v `` ?X \<subseteq> (fill_step a msk v)\<^sup>* `` A"
    using Suc by blast
  then show ?case using grow_eq [of a msk v ?X] by simp
qed

lemma grow_pow_pixels:
  assumes "fillable a msk v s"
  shows "(grow a msk v ^^ k) {s} \<subseteq> set (pixels a)"
proof -
  have "q \<in> set (pixels a)" if "(s, q) \<in> (fill_step a msk v)\<^sup>*" for q
    using that assms
    by (cases rule: rtranclE) (auto simp: fill_step_def intro: fillable_pixels)
  then show ?thesis using grow_pow_subset_rtrancl [where a = a and msk = msk and v = v and k = k and A = "{s}"] by auto
qed

lemma grow_pow_seed: "s \<in> (grow a msk v ^^ k) {s}"
proof (induction k)
  case 0
  show ?case by simp
next
  case (Suc k)
  then show ?case using grow_eq [of a msk v "(grow a msk v ^^ k) {s}"] by simp
qed

lemma flood_region_reachable:
  "flood_region a msk s =
     (if fillable a msk (a ! fst s ! snd s) s
      then (fill_step a msk (a ! fst s ! snd s))\<^sup>* `` {s} else {})"
proof (cases "fillable a msk (a ! fst s ! snd s) s")
  case False
  then show ?thesis by (simp add: flood_region_def)
next
  case True
  define v where "v = a ! fst s ! snd s"
  define R where "R = (grow a msk v ^^ length (pixels a)) {s}"
  have fx: "grow a msk v R = R"
    unfolding R_def
  proof (rule funpow_fixpoint [where C = "set (pixels a)"])
    show "S \<subseteq> grow a msk v S" for S by (simp add: grow_eq)
    show "(grow a msk v ^^ k) {s} \<subseteq> set (pixels a)" for k
      using True by (intro grow_pow_pixels) (simp add: v_def)
    show "finite (set (pixels a))" by simp
    show "card (set (pixels a)) \<le> length (pixels a)" by (rule card_length)
  qed
  have closed: "fill_step a msk v `` R \<subseteq> R"
    using fx by (auto simp: grow_eq)
  have s: "s \<in> R"
    unfolding R_def by (rule grow_pow_seed)
  have "q \<in> R" if "(s, q) \<in> (fill_step a msk v)\<^sup>*" for q
    using that by (induction rule: rtrancl_induct) (use s closed in auto)
  then have "R = (fill_step a msk v)\<^sup>* `` {s}"
    using grow_pow_subset_rtrancl [where a = a and msk = msk and v = v and k = "length (pixels a)" and A = "{s}"]
    by (auto simp: R_def)
  then show ?thesis
    using True by (simp add: flood_region_def R_def v_def)
qed

section \<open>The steps of \<^verbatim>\<open>preserve_outermost\<close>\<close>

lemma outside_px_255: "outside_px m r c = 255 \<longleftrightarrow> px m r c \<noteq> 255"
  by (simp add: outside_px_def gt254)

lemma outside_px_cases: "outside_px m r c = 0 \<or> outside_px m r c = 255"
  by (simp add: outside_px_def)

lemma set_argwhere:
  "set (argwhere_eq a v) = {p. fst p < length a \<and> snd p < length (a ! fst p) \<and> px a (fst p) (snd p) = v}"
  by (auto simp: argwhere_eq_def px_def)

lemma outside_mask_tabulate:
  assumes "rectangular h w m"
  shows "threshold_binary_inv m 254 255 = tabulate h w (outside_px m)"
  unfolding threshold_tabulate [OF assms] outside_px_def ..

lemma with_outside_tabulate:
  assumes "rectangular h w i" "rectangular h w m"
  shows "maximum i (threshold_binary_inv m 254 255) = tabulate h w (with_outside_px i m)"
proof -
  have "maximum i (tabulate h w (outside_px m)) =
      tabulate h w (\<lambda>r c. max (px i r c) (px (tabulate h w (outside_px m)) r c))"
    by (rule maximum_tabulate [OF assms(1) rectangular_tabulate])
  also have "\<dots> = tabulate h w (with_outside_px i m)"
    by (rule tabulate_cong) (simp add: px_tabulate with_outside_px_def)
  finally show ?thesis unfolding outside_mask_tabulate [OF assms(2)] .
qed

lemma flood_fill_mask_tabulate:
  assumes "rectangular h w i" "rectangular h w m" "0 < h"
  shows "rsub 255 (pad_image (tabulate h w (with_outside_px i m)) 1) =
     tabulate (h + 2) (w + 2) (marker_px h w i m)"
proof -
  let ?W = "tabulate h w (with_outside_px i m)"
  let ?P = "tabulate (h + 2) (w + 2)
       (\<lambda>r c. if 1 \<le> r \<and> r \<le> h \<and> 1 \<le> c \<and> c \<le> w then px ?W (r - 1) (c - 1) else 0)"
  have p: "pad_image ?W 1 = ?P"
    by (rule pad_image_tabulate [OF rectangular_tabulate assms(3)])
  have "rsub 255 ?P = tabulate (h + 2) (w + 2) (\<lambda>r c. 255 - px ?P r c)"
    by (rule rsub_tabulate [OF rectangular_tabulate])
  also have "\<dots> = tabulate (h + 2) (w + 2) (marker_px h w i m)"
    by (rule tabulate_cong) (auto simp: px_tabulate marker_px_def)
  finally show ?thesis unfolding p .
qed

lemma fillable_with_outside:
  "fillable (tabulate h w (with_outside_px i m)) (tabulate (h + 2) (w + 2) (marker_px h w i m)) 255 q
     \<longleftrightarrow> fst q < h \<and> snd q < w \<and> with_outside_px i m (fst q) (snd q) = 255"
proof (cases "fst q < h \<and> snd q < w")
  case False
  then show ?thesis by (auto simp: fillable_def tabulate_def)
next
  case True
  then have "px (tabulate h w (with_outside_px i m)) (fst q) (snd q) = with_outside_px i m (fst q) (snd q)"
    and "px (tabulate (h + 2) (w + 2) (marker_px h w i m)) (fst q + 1) (snd q + 1) =
      255 - with_outside_px i m (fst q) (snd q)"
    by (simp_all add: px_tabulate marker_px_def)
  then show ?thesis
    using True by (auto simp: fillable_def px_def tabulate_def)
qed

lemma fill_step_with_outside:
  "fill_step (tabulate h w (with_outside_px i m)) (tabulate (h + 2) (w + 2) (marker_px h w i m)) 255
     = reach_step h w i m"
  unfolding fill_step_def reach_step_def fillable_with_outside ..

lemma flood_region_with_outside:
  assumes "fst s < h" "snd s < w" "with_outside_px i m (fst s) (snd s) = 255"
  shows "flood_region (tabulate h w (with_outside_px i m))
       (tabulate (h + 2) (w + 2) (marker_px h w i m)) s = (reach_step h w i m)\<^sup>* `` {s}"
proof -
  have v: "tabulate h w (with_outside_px i m) ! fst s ! snd s = 255"
    using assms px_tabulate [of "fst s" h "snd s" w "with_outside_px i m"] by (simp add: px_def)
  show ?thesis
    unfolding flood_region_reachable v fill_step_with_outside fillable_with_outside
    using assms by simp
qed

lemma seed_properties:
  assumes "argwhere_eq (tabulate h w (outside_px m)) 255 = s # rest"
  shows "fst s < h \<and> snd s < w \<and> px m (fst s) (snd s) \<noteq> 255"
proof -
  have "s \<in> set (argwhere_eq (tabulate h w (outside_px m)) 255)"
    using assms by simp
  then have 0: "fst s < length (tabulate h w (outside_px m))"
    and 2: "snd s < length (tabulate h w (outside_px m) ! fst s)"
    and 3: "px (tabulate h w (outside_px m)) (fst s) (snd s) = 255"
    by (simp_all add: set_argwhere)
  from 0 have 1: "fst s < h" by (simp add: tabulate_def)
  from 1 2 have 4: "snd s < w" by (simp add: tabulate_def)
  from 1 3 4 show ?thesis by (simp add: px_tabulate outside_px_255)
qed

lemma marked_tabulate:
  assumes "rectangular h w i"
  shows "bitwise_and_masked i i
       (crop1 (eq_mask (paint 1 (tabulate (h + 2) (w + 2) (marker_px h w i m)) R 1) 1)) =
     tabulate h w (\<lambda>r c. if (r, c) \<in> R \<or> with_outside_px i m r c = 254 then px i r c else 0)"
proof -
  let ?M = "tabulate (h + 2) (w + 2) (marker_px h w i m)"
  let ?f1 = "\<lambda>r c. if 1 \<le> r \<and> 1 \<le> c \<and> (r - 1, c - 1) \<in> R then 1 else px ?M r c"
  let ?P = "tabulate (h + 2) (w + 2) ?f1"
  let ?f2 = "\<lambda>r c. if px ?P r c = 1 then 1 else (0 :: pixel)"
  let ?Q = "tabulate (h + 2) (w + 2) ?f2"
  let ?f3 = "\<lambda>r c. px ?Q (r + 1) (c + 1)"
  let ?C = "tabulate h w ?f3"
  have 1: "paint 1 ?M R 1 = ?P"
    by (rule paint_tabulate [OF rectangular_tabulate])
  have 2: "eq_mask ?P 1 = ?Q"
    by (rule eq_mask_tabulate [OF rectangular_tabulate])
  have 3: "crop1 ?Q = ?C"
    by (rule crop1_tabulate [OF rectangular_tabulate])
  have 4: "bitwise_and_masked i i ?C =
      tabulate h w (\<lambda>r c. if px ?C r c \<noteq> 0 then px i r c AND px i r c else 0)"
    by (rule bitwise_and_tabulate [OF assms assms rectangular_tabulate])
  have 5: "(if px ?C r c \<noteq> 0 then px i r c AND px i r c else 0) =
      (if (r, c) \<in> R \<or> with_outside_px i m r c = 254 then px i r c else 0)"
    if "r < h" "c < w" for r c
  proof -
    have "px ?C r c = ?f3 r c"
      using that by (rule px_tabulate)
    also have "\<dots> = ?f2 (r + 1) (c + 1)"
      using that by (intro px_tabulate) simp_all
    finally have a: "px ?C r c \<noteq> 0 \<longleftrightarrow> px ?P (r + 1) (c + 1) = 1"
      by simp
    have "px ?P (r + 1) (c + 1) = ?f1 (r + 1) (c + 1)"
      using that by (intro px_tabulate) simp_all
    also have "\<dots> = (if (r, c) \<in> R then 1 else px ?M (r + 1) (c + 1))"
      by simp
    also have "px ?M (r + 1) (c + 1) = marker_px h w i m (r + 1) (c + 1)"
      using that by (intro px_tabulate) simp_all
    also have "\<dots> = 255 - with_outside_px i m r c"
      using that by (simp add: marker_px_def)
    finally have "px ?P (r + 1) (c + 1) = 1 \<longleftrightarrow> (r, c) \<in> R \<or> with_outside_px i m r c = 254"
      by (simp add: sub1)
    with a show ?thesis by simp
  qed
  show ?thesis
    unfolding 1 2 3 4 by (rule tabulate_cong) (rule 5)
qed

lemma preserve_outermost_eq:
  assumes i: "rectangular h w i" and m: "rectangular h w m"
    and s: "argwhere_eq (tabulate h w (outside_px m)) 255 = s # rest"
  shows "preserve_outermost i m = Inr (filtered h w i m s)"
proof -
  note sp = seed_properties [OF s]
  then have h: "0 < h" by auto
  have w255: "with_outside_px i m (fst s) (snd s) = 255"
    using sp by (simp add: with_outside_px_def outside_px_255 [THEN iffD2] maxtop)
  let ?W = "tabulate h w (with_outside_px i m)"
  let ?M = "tabulate (h + 2) (w + 2) (marker_px h w i m)"
  let ?R = "(reach_step h w i m)\<^sup>* `` {s}"
  have fl: "snd (floodFill ?W ?M (snd s, fst s) 128) = paint 1 ?M ?R 1"
    using flood_region_with_outside [of s h w i m] sp w255
    by (simp add: floodFill_def Let_def)
  have "preserve_outermost i m =
      Inr (bitwise_and_masked i i (crop1 (eq_mask (snd (floodFill ?W ?M (snd s, fst s) 128)) 1)))"
    unfolding preserve_outermost_def Let_def outside_mask_tabulate [OF m]
      with_outside_tabulate [OF i m, unfolded outside_mask_tabulate [OF m]]
      flood_fill_mask_tabulate [OF i m h] s
    by simp
  also have "\<dots> = Inr (filtered h w i m s)"
    unfolding fl marked_tabulate [OF i] filtered_def kept_def by simp
  finally show ?thesis .
qed

lemma preserve_outermost_no_seed:
  assumes "argwhere_eq (threshold_binary_inv m 254 255) 255 = []"
  shows "preserve_outermost i m = Inl IndexError"
  using assms by (simp add: preserve_outermost_def Let_def)

section \<open>Filtering twice\<close>

lemma rectangular_filtered: "rectangular h w (filtered h w i m s)"
  by (simp add: filtered_def rectangular_tabulate)

lemma px_filtered:
  "r < h \<Longrightarrow> c < w \<Longrightarrow>
     px (filtered h w i m s) r c = (if (r, c) \<in> kept h w i m s then px i r c else 0)"
  by (simp add: filtered_def px_tabulate)

lemma with_outside_255:
  "with_outside_px i m r c = 255 \<longleftrightarrow> px i r c = 255 \<or> outside_px m r c = 255"
  by (simp add: with_outside_px_def max255)

lemma with_outside_254:
  "with_outside_px i m r c = 254 \<longleftrightarrow> px i r c = 254 \<and> outside_px m r c = 0"
  using outside_px_cases [of m r c]
  by (auto simp: with_outside_px_def max0 maxtop)

lemma reach_kept: "(s, p) \<in> (reach_step h w i m)\<^sup>* \<Longrightarrow> p \<in> kept h w i m s"
  by (simp add: kept_def)

lemma filtered_255:
  assumes "r < h" "c < w"
  shows "with_outside_px (filtered h w i m s) m r c = 255 \<longleftrightarrow>
     ((r, c) \<in> kept h w i m s \<and> px i r c = 255) \<or> outside_px m r c = 255"
  by (simp add: with_outside_255 px_filtered [OF assms])

lemma filtered_254:
  assumes "r < h" "c < w"
  shows "with_outside_px (filtered h w i m s) m r c = 254 \<longleftrightarrow> with_outside_px i m r c = 254"
proof -
  have "with_outside_px i m r c = 254 \<Longrightarrow> (r, c) \<in> kept h w i m s"
    by (simp add: kept_def)
  then show ?thesis
    by (auto simp: with_outside_254 px_filtered [OF assms])
qed

lemma filtered_255_imp:
  assumes "r < h" "c < w" "with_outside_px (filtered h w i m s) m r c = 255"
  shows "with_outside_px i m r c = 255"
proof -
  from assms(3) have "((r, c) \<in> kept h w i m s \<and> px i r c = 255) \<or> outside_px m r c = 255"
    by (simp only: filtered_255 [OF assms(1,2)])
  then show ?thesis by (auto simp: with_outside_255)
qed

lemma filtered_255_kept:
  assumes "r < h" "c < w" "with_outside_px i m r c = 255" "(r, c) \<in> kept h w i m s"
  shows "with_outside_px (filtered h w i m s) m r c = 255"
proof -
  from assms(3,4) have "((r, c) \<in> kept h w i m s \<and> px i r c = 255) \<or> outside_px m r c = 255"
    by (auto simp: with_outside_255)
  then show ?thesis by (simp only: filtered_255 [OF assms(1,2)])
qed

lemma reach_filtered_subset:
  "reach_step h w (filtered h w i m s) m \<subseteq> reach_step h w i m"
  by (auto simp: reach_step_def intro: filtered_255_imp)

lemma reach_filtered:
  "(reach_step h w (filtered h w i m s) m)\<^sup>* `` {s} = (reach_step h w i m)\<^sup>* `` {s}"
proof
  show "(reach_step h w (filtered h w i m s) m)\<^sup>* `` {s} \<subseteq> (reach_step h w i m)\<^sup>* `` {s}"
    using rtrancl_mono [OF reach_filtered_subset [of h w i m s]] by blast
next
  have "(s, q) \<in> (reach_step h w (filtered h w i m s) m)\<^sup>*"
    if "(s, q) \<in> (reach_step h w i m)\<^sup>*" for q
    using that
  proof (induction rule: rtrancl_induct)
    case base
    show ?case by simp
  next
    case (step y z)
    have z: "(s, z) \<in> (reach_step h w i m)\<^sup>*"
      using step.hyps by (rule rtrancl_into_rtrancl)
    have k: "(fst z, snd z) \<in> kept h w i m s"
      using reach_kept [OF z] by simp
    have "(y, z) \<in> reach_step h w (filtered h w i m s) m"
      using step.hyps(2) k by (auto simp: reach_step_def intro: filtered_255_kept)
    with step.IH show ?case by (rule rtrancl_into_rtrancl)
  qed
  then show "(reach_step h w i m)\<^sup>* `` {s} \<subseteq> (reach_step h w (filtered h w i m s) m)\<^sup>* `` {s}"
    by blast
qed

lemma kept_filtered:
  assumes "r < h" "c < w"
  shows "(r, c) \<in> kept h w (filtered h w i m s) m s \<longleftrightarrow> (r, c) \<in> kept h w i m s"
  using reach_filtered [of h w i m s] filtered_254 [OF assms, of i m s]
  by (simp add: kept_def)

lemma filtered_idem: "filtered h w (filtered h w i m s) m s = filtered h w i m s"
proof -
  have "filtered h w (filtered h w i m s) m s =
      tabulate h w (\<lambda>r c. if (r, c) \<in> kept h w (filtered h w i m s) m s
                           then px (filtered h w i m s) r c else 0)"
    by (rule filtered_def)
  also have "\<dots> = tabulate h w (\<lambda>r c. if (r, c) \<in> kept h w i m s then px i r c else 0)"
    by (rule tabulate_cong) (simp add: kept_filtered px_filtered)
  also have "\<dots> = filtered h w i m s"
    by (rule filtered_def [symmetric])
  finally show ?thesis .
qed

lemma argwhere_empty_iff:
  assumes "rectangular h w m"
  shows "argwhere_eq (tabulate h w (outside_px m)) 255 = [] \<longleftrightarrow> (\<forall>r<h. \<forall>c<w. px m r c = 255)"
proof -
  have "set (argwhere_eq (tabulate h w (outside_px m)) 255) =
      {p. fst p < h \<and> snd p < w \<and> px m (fst p) (snd p) \<noteq> 255}"
    unfolding set_argwhere
  proof (intro Collect_cong)
    fix p :: "nat \<times> nat"
    show "(fst p < length (tabulate h w (outside_px m)) \<and>
        snd p < length (tabulate h w (outside_px m) ! fst p) \<and>
        px (tabulate h w (outside_px m)) (fst p) (snd p) = 255) =
       (fst p < h \<and> snd p < w \<and> px m (fst p) (snd p) \<noteq> 255)"
    proof (cases "fst p < h \<and> snd p < w")
      case True
      then show ?thesis
        by (simp add: px_tabulate outside_px_255) (simp add: tabulate_def)
    next
      case False
      then show ?thesis by (auto simp: tabulate_def)
    qed
  qed
  then have "set (argwhere_eq (tabulate h w (outside_px m)) 255) = {} \<longleftrightarrow>
      (\<forall>r<h. \<forall>c<w. px m r c = 255)"
    by auto
  then show ?thesis by simp
qed

section \<open>The claims about \<^verbatim>\<open>preserve_outermost\<close>\<close>

text \<open>
  C2, as the code has it. For every image and foreground mask of the same shape, if the mask has no
  pixel other than 255, \<^verbatim>\<open>preserve_outermost\<close> fails, and the failure is the IndexError
  of indexing the empty result of \<^verbatim>\<open>np.argwhere\<close> with \<open>[0]\<close>: the code has no explicit
  check and no InvalidMask condition.
\<close>

theorem preserve_outermost_no_outside:
  assumes "rectangular h w img" and "rectangular h w foreground_mask"
    and "\<forall>r<h. \<forall>c<w. px foreground_mask r c = 255"
  shows "preserve_outermost img foreground_mask = Inl IndexError"
proof -
  have "argwhere_eq (threshold_binary_inv foreground_mask 254 255) 255 = []"
    unfolding outside_mask_tabulate [OF assms(2)] argwhere_empty_iff [OF assms(2)]
    by (rule assms(3))
  then show ?thesis by (rule preserve_outermost_no_seed)
qed

theorem preserve_outermost_no_outside_witness:
  "rectangular 1 2 [[0, 255]] \<and> rectangular 1 2 [[255, 255]] \<and>
   px [[255, 255]] 0 0 = 255 \<and> px [[255, 255]] 0 1 = 255 \<and>
   preserve_outermost [[0, 255]] [[255, 255]] = Inl IndexError"
proof -
  have 1: "rectangular 1 2 [[0, 255]]" and 2: "rectangular 1 2 [[255, 255]]"
    by (simp_all add: rectangular_def)
  have 3: "\<forall>r<1. \<forall>c<2. px [[255, 255]] r c = 255"
    by (simp add: px_def less_Suc_eq numeral_2_eq_2)
  from preserve_outermost_no_outside [OF 1 2 3] 1 2 show ?thesis
    by (simp add: px_def)
qed

text \<open>
  C2 in the spec's wording fails: for a one-pixel image under the mask \<open>[[255]]\<close> the outcome is
  IndexError, not InvalidMask.
\<close>

theorem all_foreground_mask_counterexample:
  "rectangular 1 1 [[0]] \<and> rectangular 1 1 [[255]] \<and> px [[255]] 0 0 = 255 \<and>
   preserve_outermost [[0]] [[255]] = Inl IndexError \<and>
   preserve_outermost [[0]] [[255]] \<noteq> Inl InvalidMask"
proof -
  have "preserve_outermost [[0]] [[255]] = Inl IndexError"
    by code_simp
  then show ?thesis by (simp add: rectangular_def px_def)
qed

text \<open>
  C5. For every image and foreground mask of the same shape, the mask having at least one
  pixel other than 255, \<^verbatim>\<open>preserve_outermost\<close> returns an image, and applying it to that
  image with the same mask returns the same image again. (Proved for all 8-bit images,
  binary ones included.)
\<close>

theorem preserve_outermost_idempotent:
  assumes "rectangular h w img" and "rectangular h w foreground_mask"
    and "\<exists>r<h. \<exists>c<w. px foreground_mask r c \<noteq> 255"
  shows "\<exists>out. preserve_outermost img foreground_mask = Inr out \<and>
     preserve_outermost out foreground_mask = Inr out"
proof -
  have "argwhere_eq (tabulate h w (outside_px foreground_mask)) 255 \<noteq> []"
    using assms(3) unfolding argwhere_empty_iff [OF assms(2)] by blast
  then obtain s rest where s: "argwhere_eq (tabulate h w (outside_px foreground_mask)) 255 = s # rest"
    by (cases "argwhere_eq (tabulate h w (outside_px foreground_mask)) 255") auto
  let ?out = "filtered h w img foreground_mask s"
  have 1: "preserve_outermost img foreground_mask = Inr ?out"
    by (rule preserve_outermost_eq [OF assms(1,2) s])
  have "preserve_outermost ?out foreground_mask = Inr (filtered h w ?out foreground_mask s)"
    by (rule preserve_outermost_eq [OF rectangular_filtered assms(2) s])
  then have 2: "preserve_outermost ?out foreground_mask = Inr ?out"
    by (simp only: filtered_idem)
  from 1 2 show ?thesis by blast
qed

theorem preserve_outermost_idempotent_witness:
  "rectangular 2 2 [[254, 0], [255, 7]] \<and> rectangular 2 2 [[255, 45], [255, 255]] \<and>
   px [[255, 45], [255, 255]] 0 1 \<noteq> 255 \<and>
   preserve_outermost [[254, 0], [255, 7]] [[255, 45], [255, 255]] = Inr [[254, 0], [0, 0]] \<and>
   preserve_outermost [[254, 0], [0, 0]] [[255, 45], [255, 255]] = Inr [[254, 0], [0, 0]]"
proof -
  have 1: "rectangular 2 2 [[254, 0], [255, 7]]" and 2: "rectangular 2 2 [[255, 45], [255, 255]]"
    by (simp_all add: rectangular_def)
  have p: "px [[255, 45], [255, 255]] 0 1 \<noteq> 255"
    by (simp add: px_def)
  have 3: "\<exists>r<2. \<exists>c<2. px [[255, 45], [255, 255]] r c \<noteq> 255"
  proof (intro exI conjI)
    show "(0::nat) < 2" and "(1::nat) < 2" by simp_all
    show "px [[255, 45], [255, 255]] 0 1 \<noteq> 255" by (rule p)
  qed
  have e: "preserve_outermost [[254, 0], [255, 7]] [[255, 45], [255, 255]] = Inr [[254, 0], [0, 0]]"
    by code_simp
  from preserve_outermost_idempotent [OF 1 2 3] e 1 2 p show ?thesis
    by auto
qed

section \<open>Rounding to binary64\<close>

lemma round_half_even_le: "y \<le> of_int k \<Longrightarrow> round_half_even y \<le> k"
proof -
  assume y: "y \<le> of_int k"
  then have f: "\<lfloor>y\<rfloor> \<le> k" by (simp add: floor_le_iff; linarith)
  show ?thesis
  proof (cases "y = of_int \<lfloor>y\<rfloor>")
    case True
    then show ?thesis using f by (simp add: round_half_even_def Let_def)
  next
    case False
    then have "of_int \<lfloor>y\<rfloor> < y" by (auto simp: less_le)
    with y have "(of_int \<lfloor>y\<rfloor> :: rat) < of_int k" by simp
    then have "\<lfloor>y\<rfloor> < k" by simp
    then show ?thesis by (simp add: round_half_even_def Let_def)
  qed
qed

lemma round_half_even_ge: "of_int k \<le> y \<Longrightarrow> k \<le> round_half_even y"
proof -
  assume "of_int k \<le> y"
  then have "k \<le> \<lfloor>y\<rfloor>" by (simp add: le_floor_iff)
  then show ?thesis by (simp add: round_half_even_def Let_def)
qed

lemma round_half_even_of_int: "round_half_even (of_int k) = k"
  by (simp add: round_half_even_def)

lemma binade_bounds:
  assumes "0 < x"
  shows "2 powi binade x \<le> x \<and> x < 2 powi (binade x + 1)"
proof -
  obtain a b where q: "quotient_of x = (a, b)" by (cases "quotient_of x")
  then have b: "0 < b" and x: "x = of_int a / of_int b"
    using quotient_of_denom_pos [OF q] quotient_of_div [OF q] by simp_all
  have a: "0 < a"
    using assms b unfolding x by (simp add: zero_less_divide_iff)
  define la lb where "la = bitlen a" and "lb = bitlen b"
  have la: "2 ^ nat (la - 1) \<le> a" "a < 2 ^ nat la"
    and lb: "2 ^ nat (lb - 1) \<le> b" "b < 2 ^ nat lb"
    using bitlen_bounds [OF a] bitlen_bounds [OF b] by (simp_all add: la_def lb_def)
  have la1: "1 \<le> la" and lb1: "1 \<le> lb"
    using a b by (simp_all add: la_def lb_def bitlen_alt_def)
  have pa: "(2::rat) powi (la - 1) \<le> of_int a" "(of_int a :: rat) < 2 powi la"
    and pb: "(2::rat) powi (lb - 1) \<le> of_int b" "(of_int b :: rat) < 2 powi lb"
  proof -
    have "(of_int (2 ^ nat (la - 1)) :: rat) \<le> of_int a" using la(1) by (simp only: of_int_le_iff)
    then show "(2::rat) powi (la - 1) \<le> of_int a" using la1 by (simp add: power_int_def)
    have "(of_int a :: rat) < of_int (2 ^ nat la)" using la(2) by (simp only: of_int_less_iff)
    then show "(of_int a :: rat) < 2 powi la" using la1 by (simp add: power_int_def)
    have "(of_int (2 ^ nat (lb - 1)) :: rat) \<le> of_int b" using lb(1) by (simp only: of_int_le_iff)
    then show "(2::rat) powi (lb - 1) \<le> of_int b" using lb1 by (simp add: power_int_def)
    have "(of_int b :: rat) < of_int (2 ^ nat lb)" using lb(2) by (simp only: of_int_less_iff)
    then show "(of_int b :: rat) < 2 powi lb" using lb1 by (simp add: power_int_def)
  qed
  have bpos: "(0::rat) < of_int b" using b by simp
  have lo: "(2::rat) powi (la - lb - 1) < x"
  proof -
    have "(2::rat) powi (la - lb - 1) * of_int b < 2 powi (la - lb - 1) * 2 powi lb"
      using pb(2) by (simp add: mult_strict_left_mono)
    also have "\<dots> = 2 powi (la - 1)"
      by (simp flip: power_int_add)
    also have "\<dots> \<le> of_int a" by (rule pa(1))
    finally show ?thesis unfolding x using bpos by (simp add: pos_less_divide_eq)
  qed
  have hi: "x < (2::rat) powi (la - lb + 1)"
  proof -
    have "(of_int a :: rat) < 2 powi la" by (rule pa(2))
    also have "\<dots> = 2 powi (la - lb + 1) * 2 powi (lb - 1)"
      by (simp flip: power_int_add)
    also have "\<dots> \<le> 2 powi (la - lb + 1) * of_int b"
      using pb(1) by (simp add: mult_left_mono)
    finally show ?thesis unfolding x using bpos by (simp add: pos_divide_less_eq)
  qed
  have k: "binade x = (if 2 powi (la - lb) \<le> x then la - lb else la - lb - 1)"
    by (simp add: binade_def q la_def lb_def Let_def)
  show ?thesis
  proof (cases "2 powi (la - lb) \<le> x")
    case True
    then show ?thesis using hi by (simp add: k)
  next
    case False
    then show ?thesis using lo by (simp add: k)
  qed
qed

lemma pow2_less_iff: "(2::rat) powi m < 2 powi n \<longleftrightarrow> m < n"
proof
  assume l: "(2::rat) powi m < 2 powi n"
  show "m < n"
  proof (rule ccontr)
    assume "\<not> m < n"
    then have "(2::rat) powi n \<le> 2 powi m"
      by (intro power_int_increasing) simp_all
    with l show False by simp
  qed
next
  assume "m < n"
  then show "(2::rat) powi m < 2 powi n"
    by (intro power_int_strict_increasing) simp_all
qed

lemma binade_less: "0 < x \<Longrightarrow> x < 2 powi e \<Longrightarrow> binade x < e"
proof -
  assume "0 < x" "x < 2 powi e"
  then have "(2::rat) powi binade x < 2 powi e"
    using binade_bounds [of x] by simp
  then show ?thesis by (simp add: pow2_less_iff)
qed

lemma binade_ge: "0 < x \<Longrightarrow> 2 powi e \<le> x \<Longrightarrow> e \<le> binade x"
proof -
  assume "0 < x" "2 powi e \<le> x"
  then have "(2::rat) powi e < 2 powi (binade x + 1)"
    using binade_bounds [of x] by simp
  then have "e < binade x + 1" by (simp add: pow2_less_iff)
  then show ?thesis by simp
qed

lemma pow2_pos: "(0::rat) < 2 powi e"
  by (simp add: zero_less_power_int)

lemma significand_bounds:
  assumes "0 < x"
  shows "2 ^ 52 \<le> x / 2 powi (binade x - 52) \<and> x / 2 powi (binade x - 52) < 2 ^ 53"
proof -
  have e: "(2::rat) powi binade x = 2 powi (binade x - 52) * 2 ^ 52"
    "(2::rat) powi (binade x + 1) = 2 powi (binade x - 52) * 2 ^ 53"
    using power_int_add [of "2::rat" "binade x - 52" 52]
      power_int_add [of "2::rat" "binade x - 52" 53] by (simp_all add: add.commute)
  show ?thesis
    using binade_bounds [OF assms] pow2_pos [of "binade x - 52"]
    unfolding e by (simp add: pos_le_divide_eq pos_divide_less_eq mult.commute)
qed

lemma to_double_mono_int_le:
  assumes "0 < x" and "x / 2 powi (binade x - 52) \<le> of_int k"
  shows "to_double x \<le> of_int k * 2 powi (binade x - 52)"
proof -
  have "round_half_even (x / 2 powi (binade x - 52)) \<le> k"
    by (rule round_half_even_le [OF assms(2)])
  then have "(of_int (round_half_even (x / 2 powi (binade x - 52))) :: rat) \<le> of_int k"
    by (simp only: of_int_le_iff)
  then show ?thesis
    using assms(1) pow2_pos [of "binade x - 52"]
    by (simp add: to_double_def mult_right_mono)
qed

lemma to_double_mono_int_ge:
  assumes "0 < x" and "of_int k \<le> x / 2 powi (binade x - 52)"
  shows "of_int k * 2 powi (binade x - 52) \<le> to_double x"
proof -
  have "k \<le> round_half_even (x / 2 powi (binade x - 52))"
    by (rule round_half_even_ge [OF assms(2)])
  then have "(of_int k :: rat) \<le> of_int (round_half_even (x / 2 powi (binade x - 52)))"
    by (simp only: of_int_le_iff)
  then show ?thesis
    using assms(1) pow2_pos [of "binade x - 52"]
    by (simp add: to_double_def mult_right_mono)
qed

lemma to_double_upper: 
  assumes "0 < x"
  shows "to_double x \<le> 2 powi (binade x + 1)"
proof -
  have "x / 2 powi (binade x - 52) \<le> of_int (2 ^ 53)"
    using significand_bounds [OF assms] by simp
  from to_double_mono_int_le [OF assms this]
  show ?thesis
    using power_int_add [of "2::rat" "binade x - 52" 53] by (simp add: mult.commute add.commute)
qed

lemma to_double_lower:
  assumes "0 < x"
  shows "2 powi binade x \<le> to_double x"
proof -
  have "of_int (2 ^ 52) \<le> x / 2 powi (binade x - 52)"
    using significand_bounds [OF assms] by simp
  from to_double_mono_int_ge [OF assms this]
  show ?thesis
    using power_int_add [of "2::rat" "binade x - 52" 52] by (simp add: mult.commute add.commute)
qed

lemma to_double_of_nat:
  assumes "n < 2 ^ 53"
  shows "to_double (of_nat n) = of_nat n"
proof (cases "n = 0")
  case True
  then show ?thesis by (simp add: to_double_def)
next
  case False
  let ?x = "of_nat n :: rat"
  let ?b = "binade ?x"
  have pos: "0 < ?x" using False by simp
  have "?x < of_nat (2 ^ 53)" using assms by (simp only: of_nat_less_iff)
  then have "?x < 2 ^ 53" by (simp only: of_nat_power of_nat_numeral)
  then have "?x < 2 powi 53" by (simp add: power_int_def)
  then have b: "?b < 53" using pos by (rule binade_less [rotated])
  define k where "k = nat (52 - ?b)"
  have ik: "?b - 52 + int k = 0" using b by (simp add: k_def)
  have "(2::rat) powi (?b - 52) * 2 powi (int k) = 2 powi (?b - 52 + int k)"
    by (simp add: power_int_add)
  also have "\<dots> = 1" by (simp only: ik power_int_0_right)
  finally have k: "(2::rat) powi (?b - 52) * 2 ^ k = 1" by simp
  then have d: "?x / 2 powi (?b - 52) = of_int (int n * 2 ^ k)"
    using pow2_pos [of "?b - 52"] by (simp add: field_simps)
  have "to_double ?x = of_int (int n * 2 ^ k) * 2 powi (?b - 52)"
    using False by (simp only: to_double_def d round_half_even_of_int) simp
  also have "\<dots> = ?x * (2 powi (?b - 52) * 2 ^ k)"
    by simp
  finally show ?thesis by (simp only: k mult_1_right)
qed

lemma double_0_05: "to_double (1 / 20) = 3602879701896397 / 2 ^ 56"
  by code_simp

lemma binade_m5: "0 < x \<Longrightarrow> 2 powi (- 5) \<le> x \<Longrightarrow> x < 2 powi (- 4) \<Longrightarrow> binade x = - 5"
  using binade_less [of x "- 4"] binade_ge [of x "- 5"] by simp

lemma to_double_le_0_05:
  assumes "0 \<le> x" "x \<le> 1 / 20"
  shows "to_double x \<le> 3602879701896397 / 2 ^ 56"
proof (cases "x = 0")
  case True
  then show ?thesis by (simp add: to_double_def)
next
  case False
  then have pos: "0 < x" using assms(1) by simp
  have "x < 2 powi (- 4)" using assms(2) by (simp add: power_int_minus_divide)
  then have b: "binade x < - 4" using pos by (rule binade_less [rotated])
  show ?thesis
  proof (cases "binade x = - 5")
    case True
    have "x / 2 powi (binade x - 52) \<le> of_int 7205759403792794"
      using assms(2) by (simp add: True power_int_minus_divide field_simps)
    from to_double_mono_int_le [OF pos this]
    show ?thesis by (simp add: True power_int_minus_divide)
  next
    case False
    then have "binade x + 1 \<le> - 5" using b by simp
    then have "(2::rat) powi (binade x + 1) \<le> 2 powi (- 5)"
      by (intro power_int_increasing) simp_all
    with to_double_upper [OF pos] have "to_double x \<le> 2 powi (- 5)" by simp
    then show ?thesis by (simp add: power_int_minus_divide)
  qed
qed

lemma to_double_gt_0_05:
  assumes "7205759403792795 / 2 ^ 57 \<le> x"
  shows "3602879701896397 / 2 ^ 56 < to_double x"
proof -
  have pos: "0 < x" using assms by simp
  have "2 powi (- 5) \<le> x" using assms by (simp add: power_int_minus_divide)
  then have b: "- 5 \<le> binade x" using pos by (rule binade_ge [rotated])
  show ?thesis
  proof (cases "binade x = - 5")
    case True
    have "of_int 7205759403792795 \<le> x / 2 powi (binade x - 52)"
      using assms by (simp add: True power_int_minus_divide field_simps)
    from to_double_mono_int_ge [OF pos this]
    show ?thesis by (simp add: True power_int_minus_divide)
  next
    case False
    then have "- 4 \<le> binade x" using b by simp
    then have "(2::rat) powi (- 4) \<le> 2 powi binade x"
      by (intro power_int_increasing) simp_all
    with to_double_lower [OF pos] have "2 powi (- 4) \<le> to_double x" by simp
    then show ?thesis by (simp add: power_int_minus_divide)
  qed
qed

section \<open>The claim about \<^verbatim>\<open>is_good_node\<close>\<close>

lemma count_nonzero_le: "count_nonzero img \<le> array_size img"
  by (simp add: count_nonzero_def array_size_def)

lemma good_ratio:
  assumes "0 < sz" "sz < 2 ^ 52" "n \<le> sz"
  shows "to_double (1 / 20) < to_double (to_double (of_nat n) / to_double (of_nat sz))
     \<longleftrightarrow> sz < 20 * n"
proof -
  have sz: "sz < 4503599627370496" using assms(2) by simp
  have "n < 2 ^ 53" "sz < 2 ^ 53" using assms(2,3) by simp_all
  then have e: "to_double (of_nat n) = of_nat n" "to_double (of_nat sz) = of_nat sz"
    by (simp_all add: to_double_of_nat)
  let ?x = "of_nat n / of_nat sz :: rat"
  have pos: "(0::rat) < of_nat sz" using assms(1) by simp
  show ?thesis
  proof (cases "sz < 20 * n")
    case True
    then have "7205759403792795 * sz \<le> 144115188075855872 * n"
      using sz by linarith
    then have "(of_nat (7205759403792795 * sz) :: rat) \<le> of_nat (144115188075855872 * n)"
      by (simp only: of_nat_le_iff)
    then have "(7205759403792795 :: rat) * of_nat sz \<le> 144115188075855872 * of_nat n"
      by (simp only: of_nat_mult of_nat_numeral)
    then have "7205759403792795 / 2 ^ 57 \<le> ?x"
      using pos by (simp add: field_simps)
    from to_double_gt_0_05 [OF this] True show ?thesis
      by (simp only: e double_0_05)
  next
    case False
    then have "20 * n \<le> sz" by simp
    then have "(of_nat (20 * n) :: rat) \<le> of_nat sz"
      by (simp only: of_nat_le_iff)
    then have "(20 :: rat) * of_nat n \<le> of_nat sz"
      by (simp only: of_nat_mult of_nat_numeral)
    then have "?x \<le> 1 / 20" "0 \<le> ?x"
      using pos by (simp_all add: field_simps)
    from to_double_le_0_05 [OF this(2,1)] False show ?thesis
      by (simp only: e double_0_05) simp
  qed
qed

lemma fraction_gt:
  assumes "0 < sz"
  shows "(1 / 20 :: rat) < of_nat n / of_nat sz \<longleftrightarrow> sz < 20 * n"
proof -
  have "(of_nat sz :: rat) < of_nat (20 * n) \<longleftrightarrow> sz < 20 * n"
    by (simp only: of_nat_less_iff)
  then have "(of_nat sz :: rat) < 20 * of_nat n \<longleftrightarrow> sz < 20 * n"
    by (simp only: of_nat_mult of_nat_numeral)
  then show ?thesis using assms by (simp add: field_simps)
qed

text \<open>
  C9, as the code has it. For every image that is not empty (and has fewer than \<open>2\<^sup>5\<^sup>2\<close> pixels, where
  the float arithmetic decides the comparison as the exact fraction does), \<^verbatim>\<open>is_good_node\<close>
  returns true exactly when the fraction of nonzero pixels strictly exceeds \<open>1/20\<close>; in
  particular it returns false on an all-zero image and true on an image with 10 percent
  of nonzero pixels.
\<close>

theorem is_good_node_threshold:
  assumes "array_size img \<noteq> 0" and "array_size img < 2 ^ 52"
  shows "is_good_node img =
       Inr ((1 / 20 :: rat) < of_nat (count_nonzero img) / of_nat (array_size img)) \<and>
     (count_nonzero img = 0 \<longrightarrow> is_good_node img = Inr False) \<and>
     (10 * count_nonzero img = array_size img \<longrightarrow> is_good_node img = Inr True)"
proof -
  have pos: "0 < array_size img" using assms(1) by simp
  have g: "is_good_node img = Inr (array_size img < 20 * count_nonzero img)"
    using assms(1) good_ratio [OF pos assms(2) count_nonzero_le]
    by (simp add: is_good_node_def Let_def)
  show ?thesis
    unfolding g fraction_gt [OF pos] using pos by auto
qed

theorem is_good_node_threshold_witness:
  "array_size [[0, 0, 0, 0, 0], [0, 0, 7, 0, 0]] \<noteq> 0 \<and>
   array_size [[0, 0, 0, 0, 0], [0, 0, 7, 0, 0]] < 2 ^ 52 \<and>
   10 * count_nonzero [[0, 0, 0, 0, 0], [0, 0, 7, 0, 0]] = array_size [[0, 0, 0, 0, 0], [0, 0, 7, 0, 0]] \<and>
   is_good_node [[0, 0, 0, 0, 0], [0, 0, 7, 0, 0]] = Inr True"
proof -
  have 1: "array_size [[0, 0, 0, 0, 0], [0, 0, 7, 0, 0]] \<noteq> 0"
    and 2: "array_size [[0, 0, 0, 0, 0], [0, 0, 7, 0, 0]] < 2 ^ 52"
    and 3: "10 * count_nonzero [[0, 0, 0, 0, 0], [0, 0, 7, 0, 0]] = array_size [[0, 0, 0, 0, 0], [0, 0, 7, 0, 0]]"
    by (simp_all add: array_size_def count_nonzero_def)
  from is_good_node_threshold [OF 1 2] 1 2 3 show ?thesis by blast
qed

text \<open>
  C9 in the spec's wording fails for an all-zero image of size 0: the division raises
  ZeroDivisionError, nothing is returned.
\<close>

theorem empty_image_counterexample:
  "count_nonzero [] = 0 \<and> array_size [] = 0 \<and>
   is_good_node [] = Inl ZeroDivisionError \<and> is_good_node [] \<noteq> Inr False \<and>
   count_nonzero [[]] = 0 \<and> array_size [[]] = 0 \<and>
   is_good_node [[]] = Inl ZeroDivisionError \<and> is_good_node [[]] \<noteq> Inr False"
  by (simp add: is_good_node_def count_nonzero_def array_size_def)

end
